theory Spec2Isabelle
  imports Main "HOL-Library.AList" "HOL-Library.Multiset"
begin

section \<open>Data model\<close>

text \<open>
  The values the two processors of package \<open>processor\<close> handle, with the fields the code
  reads. \<open>spotify.ID\<close> is a string type. An \<open>error\<close> is either an error handed back by a
  collaborator or \<open>fmt.Errorf("<prefix>: %w", err)\<close> around another error.
\<close>

type_synonym ID = string

type_synonym image = string

datatype error = Err string | Errorf string error

record SimpleArtist =
  artist_Name :: string

record SavedTrack =
  track_ID :: ID
  track_Name :: string
  track_Artists :: "SimpleArtist list"
  AddedAt :: string

record SavedTrackPage =
  liked_Total :: int
  liked_Tracks :: "SavedTrack list"

record User =
  user_ID :: string

record SimplePlaylist =
  playlist_ID :: ID
  playlist_Name :: string
  playlist_Owner :: User

record SimplePlaylistPage =
  Playlists :: "SimplePlaylist list"

record PlaylistTrack =
  item_Track_ID :: ID

record PlaylistTrackPage =
  items_Total :: int
  items_Tracks :: "PlaylistTrack list"

record FullPlaylist =
  created_ID :: ID
  created_Name :: string

section \<open>Artist filter: marking the tracks of a page\<close>

text \<open>
  \<open>artistTrackRemover.artists\<close> is a \<open>map[string]struct{}\<close> used as a set;
  \<open>NewArtistTrackRemover\<close> fills it from a list. The inner loop of \<open>findTracksToRemove\<close>
  appends the identifier of the track at the first artist found in the set and breaks.
\<close>

definition NewArtistSet :: "string list \<Rightarrow> string set" where
  "NewArtistSet artistsToRemove = set artistsToRemove"

fun markTrack :: "string set \<Rightarrow> SavedTrack \<Rightarrow> SimpleArtist list \<Rightarrow> ID list \<Rightarrow> ID list" where
  "markTrack artists item [] idsToRemove = idsToRemove"
| "markTrack artists item (artist # rest) idsToRemove =
     (if artist_Name artist \<in> artists then idsToRemove @ [track_ID item]
      else markTrack artists item rest idsToRemove)"

fun findTracksLoop :: "string set \<Rightarrow> SavedTrack list \<Rightarrow> ID list \<Rightarrow> ID list" where
  "findTracksLoop artists [] idsToRemove = idsToRemove"
| "findTracksLoop artists (item # rest) idsToRemove =
     findTracksLoop artists rest (markTrack artists item (track_Artists item) idsToRemove)"

definition findTracksToRemove :: "string set \<Rightarrow> SavedTrack list \<Rightarrow> ID list" where
  "findTracksToRemove artists savedTracks = findTracksLoop artists savedTracks []"

section \<open>Track classifier\<close>

text \<open>
  \<open>groupTracksByYear\<close> fills a \<open>map[int][]spotify.ID\<close>, here an association list with one
  entry per key. Reading a missing key of a Go map gives the nil slice. The standard
  library's \<open>time.Parse(time.RFC3339, s)\<close> followed by \<open>Year()\<close> is the parameter
  \<open>parseYear\<close>: \<open>None\<close> when parsing fails, the year otherwise.
\<close>

definition lookupIDs :: "(int \<times> ID list) list \<Rightarrow> int \<Rightarrow> ID list" where
  "lookupIDs grouped year = (case map_of grouped year of None \<Rightarrow> [] | Some ids \<Rightarrow> ids)"

fun groupLoop ::
  "(string \<Rightarrow> int option) \<Rightarrow> SavedTrack list \<Rightarrow> (int \<times> ID list) list \<Rightarrow> (int \<times> ID list) list" where
  "groupLoop parseYear [] grouped = grouped"
| "groupLoop parseYear (item # rest) grouped =
     (case parseYear (AddedAt item) of
        None \<Rightarrow> groupLoop parseYear rest grouped
      | Some year \<Rightarrow>
          groupLoop parseYear rest
            (AList.update year (lookupIDs grouped year @ [track_ID item]) grouped))"

definition groupTracksByYear ::
  "(string \<Rightarrow> int option) \<Rightarrow> SavedTrack list \<Rightarrow> (int \<times> ID list) list" where
  "groupTracksByYear parseYear tracks = groupLoop parseYear tracks []"

text \<open>
  For concrete runs, a reader of timestamps of the shape \<open>YYYY-MM-DDThh:mm:ssZ\<close> that
  checks the digits and separators only; like \<open>time.Parse\<close> it rejects the empty string.
\<close>

definition isDigit :: "char \<Rightarrow> bool" where
  "isDigit ch = (ch \<in> set ''0123456789'')"

definition digitVal :: "char \<Rightarrow> int" where
  "digitVal ch = of_char ch - 48"

definition utcYear :: "string \<Rightarrow> int option" where
  "utcYear s =
     (case s of
        [y1, y2, y3, y4, d1, m1, m2, d2, a1, a2, t, h1, h2, c1, n1, n2, c2, s1, s2, z] \<Rightarrow>
          if list_all isDigit [y1, y2, y3, y4, m1, m2, a1, a2, h1, h2, n1, n2, s1, s2]
             \<and> [d1, d2, t, c1, c2, z] = ''--T::Z''
          then Some (1000 * digitVal y1 + 100 * digitVal y2 + 10 * digitVal y3 + digitVal y4)
          else None
      | _ \<Rightarrow> None)"

section \<open>Collaborators and the record of their calls\<close>

text \<open>
  \<open>SpotifyClient\<close> and \<open>ImageGenerator\<close> are interfaces: the code only sees what their
  methods return. A method is a function from the collaborator's state \<open>'r\<close> to a result
  and the next state; a result is \<open>Inl err\<close> for a non-nil error. The methods the two
  processors call are listed (\<open>Search\<close> and \<open>UnfollowPlaylist\<close> are never called). The
  \<open>context.Context\<close> argument only reaches the collaborators, and the logger only prints;
  neither is carried. Page requests carry \<open>spotify.Limit\<close> and \<open>spotify.Offset\<close>, here the
  two integer arguments in that order. A method that returns a nil error returns its
  value. Offsets and totals are Go \<open>int\<close>s; they are integers here: an offset grows by
  at most one page per call and stays far from the 64-bit bound.
\<close>

record 'r SpotifyClient =
  CurrentUser :: "'r \<Rightarrow> (error + User) \<times> 'r"
  CurrentUsersTracks :: "int \<Rightarrow> int \<Rightarrow> 'r \<Rightarrow> (error + SavedTrackPage) \<times> 'r"
  RemoveTracksFromLibrary :: "ID list \<Rightarrow> 'r \<Rightarrow> (error + unit) \<times> 'r"
  CreatePlaylistForUser ::
    "string \<Rightarrow> string \<Rightarrow> string \<Rightarrow> bool \<Rightarrow> bool \<Rightarrow> 'r \<Rightarrow> (error + FullPlaylist) \<times> 'r"
  AddTracksToPlaylist :: "ID \<Rightarrow> ID list \<Rightarrow> 'r \<Rightarrow> (error + string) \<times> 'r"
  SetPlaylistImage :: "ID \<Rightarrow> image \<Rightarrow> 'r \<Rightarrow> (error + unit) \<times> 'r"
  GetPlaylistsForUser :: "string \<Rightarrow> int \<Rightarrow> int \<Rightarrow> 'r \<Rightarrow> (error + SimplePlaylistPage) \<times> 'r"
  GetPlaylistTracks :: "ID \<Rightarrow> int \<Rightarrow> int \<Rightarrow> 'r \<Rightarrow> (error + PlaylistTrackPage) \<times> 'r"
  RemoveTracksFromPlaylist :: "ID \<Rightarrow> ID list \<Rightarrow> 'r \<Rightarrow> (error + string) \<times> 'r"

type_synonym 'r ImageGenerator = "string \<Rightarrow> 'r \<Rightarrow> (error + image) \<times> 'r"

text \<open>
  Every call made is written to a log, in order, with what came back: the error, the page
  for the three paged reads, plain success otherwise. The log is how "a call is (not)
  issued" is stated. A run carries the collaborators' state and the log.
\<close>

datatype call =
    CurrentUser_call
  | CurrentUsersTracks_call int int
  | RemoveTracksFromLibrary_call "ID list"
  | CreatePlaylistForUser_call string string string bool bool
  | AddTracksToPlaylist_call ID "ID list"
  | SetPlaylistImage_call ID image
  | GetPlaylistsForUser_call string int int
  | GetPlaylistTracks_call ID int int
  | RemoveTracksFromPlaylist_call ID "ID list"
  | GenerateForPlaylist_call string

datatype outcome =
    Failed error
  | Succeeded
  | LikedPage SavedTrackPage
  | PlaylistsPage SimplePlaylistPage
  | ItemsPage PlaylistTrackPage

type_synonym event = "call \<times> outcome"

type_synonym 'r run = "'r \<times> event list"

definition perform ::
  "call \<Rightarrow> ('a \<Rightarrow> outcome) \<Rightarrow> ('r \<Rightarrow> (error + 'a) \<times> 'r) \<Rightarrow> 'r run \<Rightarrow> (error + 'a) \<times> 'r run" where
  "perform k seen method s =
     (case method (fst s) of
        (res, r') \<Rightarrow>
          (res, (r', snd s @ [(k, case res of Inl err \<Rightarrow> Failed err | Inr x \<Rightarrow> seen x)])))"

definition plain :: "'a \<Rightarrow> outcome" where
  "plain x = Succeeded"

section \<open>Pagers of the playlist sorter\<close>

text \<open>
  Each \<open>for { ... }\<close> loop that pages through a remote collection has no bound of its own:
  it ends when the collaborator's answers end it. The loops therefore take a number of
  iterations they may use. A result is \<open>Some (Inl err)\<close> for a returned error,
  \<open>Some (Inr x)\<close> for a returned value with nil error, and \<open>None\<close> for "has not returned
  within that many iterations"; the state and the log reached are kept in every case.
\<close>

fun fetchLikedLoop ::
  "nat \<Rightarrow> 'r SpotifyClient \<Rightarrow> int \<Rightarrow> SavedTrack list \<Rightarrow> 'r run
     \<Rightarrow> (error + SavedTrack list) option \<times> 'r run" where
  "fetchLikedLoop 0 client offset allTracks s = (None, s)"
| "fetchLikedLoop (Suc n) client offset allTracks s =
     (case perform (CurrentUsersTracks_call 50 offset) LikedPage
             (CurrentUsersTracks client 50 offset) s of
        (Inl err, s') \<Rightarrow> (Some (Inl err), s')
      | (Inr page, s') \<Rightarrow>
          if length (liked_Tracks page) = 0 then (Some (Inr allTracks), s')
          else fetchLikedLoop n client (offset + int (length (liked_Tracks page)))
                 (allTracks @ liked_Tracks page) s')"

definition fetchAllLikedTracks ::
  "nat \<Rightarrow> 'r SpotifyClient \<Rightarrow> 'r run \<Rightarrow> (error + SavedTrack list) option \<times> 'r run" where
  "fetchAllLikedTracks n client s = fetchLikedLoop n client 0 [] s"

definition isMatch :: "string \<Rightarrow> string \<Rightarrow> SimplePlaylist \<Rightarrow> bool" where
  "isMatch userID name pl = (playlist_Name pl = name \<and> user_ID (playlist_Owner pl) = userID)"

fun findPlaylistLoop ::
  "nat \<Rightarrow> 'r SpotifyClient \<Rightarrow> string \<Rightarrow> string \<Rightarrow> int \<Rightarrow> 'r run
     \<Rightarrow> (error + SimplePlaylist option) option \<times> 'r run" where
  "findPlaylistLoop 0 client userID name offset s = (None, s)"
| "findPlaylistLoop (Suc n) client userID name offset s =
     (case perform (GetPlaylistsForUser_call userID 50 offset) PlaylistsPage
             (GetPlaylistsForUser client userID 50 offset) s of
        (Inl err, s') \<Rightarrow> (Some (Inl (Errorf ''failed to get user playlists'' err)), s')
      | (Inr page, s') \<Rightarrow>
          (case find (isMatch userID name) (Playlists page) of
             Some found \<Rightarrow> (Some (Inr (Some found)), s')
           | None \<Rightarrow>
               if length (Playlists page) = 0 then (Some (Inr None), s')
               else findPlaylistLoop n client userID name
                      (offset + int (length (Playlists page))) s'))"

definition findExistingPlaylist ::
  "nat \<Rightarrow> 'r SpotifyClient \<Rightarrow> string \<Rightarrow> string \<Rightarrow> 'r run
     \<Rightarrow> (error + SimplePlaylist option) option \<times> 'r run" where
  "findExistingPlaylist n client userID name s = findPlaylistLoop n client userID name 0 s"

fun fetchPlaylistLoop ::
  "nat \<Rightarrow> 'r SpotifyClient \<Rightarrow> ID \<Rightarrow> int \<Rightarrow> ID list \<Rightarrow> 'r run
     \<Rightarrow> (error + ID list) option \<times> 'r run" where
  "fetchPlaylistLoop 0 client playlistID offset allTrackIDs s = (None, s)"
| "fetchPlaylistLoop (Suc n) client playlistID offset allTrackIDs s =
     (case perform (GetPlaylistTracks_call playlistID 100 offset) ItemsPage
             (GetPlaylistTracks client playlistID 100 offset) s of
        (Inl err, s') \<Rightarrow> (Some (Inl err), s')
      | (Inr page, s') \<Rightarrow>
          if length (items_Tracks page) = 0 then (Some (Inr allTrackIDs), s')
          else fetchPlaylistLoop n client playlistID (offset + int (length (items_Tracks page)))
                 (allTrackIDs @ filter (\<lambda>i. i \<noteq> []) (map item_Track_ID (items_Tracks page))) s')"

definition fetchAllPlaylistTracks ::
  "nat \<Rightarrow> 'r SpotifyClient \<Rightarrow> ID \<Rightarrow> 'r run \<Rightarrow> (error + ID list) option \<times> 'r run" where
  "fetchAllPlaylistTracks n client playlistID s = fetchPlaylistLoop n client playlistID 0 [] s"

section \<open>Batched removal and addition\<close>

text \<open>
  The two batch loops run \<open>for i := 0; i < len(trackIDs); i += batchSize\<close> with the local
  \<open>batchSize := 100\<close>. The loop functions take \<open>batchSize\<close> as an argument, and the two
  methods pass 100. A \<open>batchSize\<close> of 0, which the code never has, would never advance
  \<open>i\<close>, and is given no result.
\<close>

function removeBatchLoop ::
  "'r SpotifyClient \<Rightarrow> ID \<Rightarrow> ID list \<Rightarrow> nat \<Rightarrow> nat \<Rightarrow> 'r run \<Rightarrow> (error + unit) option \<times> 'r run" where
  "removeBatchLoop client playlistID trackIDs batchSize i s =
     (if batchSize = 0 then (None, s)
      else if i < length trackIDs then
        (let endIdx = (if i + batchSize > length trackIDs then length trackIDs else i + batchSize);
             batch = take (endIdx - i) (drop i trackIDs)
         in case perform (RemoveTracksFromPlaylist_call playlistID batch) plain
                   (RemoveTracksFromPlaylist client playlistID batch) s of
              (Inl err, s') \<Rightarrow> (Some (Inl (Errorf ''failed to remove tracks from playlist'' err)), s')
            | (Inr snapshot, s') \<Rightarrow>
                removeBatchLoop client playlistID trackIDs batchSize (i + batchSize) s')
      else (Some (Inr ()), s))"
  by pat_completeness auto
termination
  by (relation "measure (\<lambda>(client, playlistID, trackIDs, batchSize, i, s). length trackIDs - i)")
    auto

declare removeBatchLoop.simps [simp del]

definition removeTracksInBatches ::
  "'r SpotifyClient \<Rightarrow> ID \<Rightarrow> ID list \<Rightarrow> 'r run \<Rightarrow> (error + unit) option \<times> 'r run" where
  "removeTracksInBatches client playlistID trackIDs s =
     (if length trackIDs = 0 then (Some (Inr ()), s)
      else removeBatchLoop client playlistID trackIDs 100 0 s)"

function addBatchLoop ::
  "'r SpotifyClient \<Rightarrow> ID \<Rightarrow> ID list \<Rightarrow> nat \<Rightarrow> nat \<Rightarrow> 'r run \<Rightarrow> (error + unit) option \<times> 'r run" where
  "addBatchLoop client playlistID trackIDs batchSize i s =
     (if batchSize = 0 then (None, s)
      else if i < length trackIDs then
        (let endIdx = (if i + batchSize > length trackIDs then length trackIDs else i + batchSize);
             batch = take (endIdx - i) (drop i trackIDs)
         in case perform (AddTracksToPlaylist_call playlistID batch) plain
                   (AddTracksToPlaylist client playlistID batch) s of
              (Inl err, s') \<Rightarrow> (Some (Inl (Errorf ''failed to add tracks to playlist'' err)), s')
            | (Inr snapshot, s') \<Rightarrow>
                addBatchLoop client playlistID trackIDs batchSize (i + batchSize) s')
      else (Some (Inr ()), s))"
  by pat_completeness auto
termination
  by (relation "measure (\<lambda>(client, playlistID, trackIDs, batchSize, i, s). length trackIDs - i)")
    auto

declare addBatchLoop.simps [simp del]

definition addTracksInBatches ::
  "'r SpotifyClient \<Rightarrow> ID \<Rightarrow> ID list \<Rightarrow> 'r run \<Rightarrow> (error + unit) option \<times> 'r run" where
  "addTracksInBatches client playlistID trackIDs s =
     addBatchLoop client playlistID trackIDs 100 0 s"

section \<open>The playlist sorter\<close>

text \<open>\<open>fmt.Sprintf\<close> with \<open>%d\<close>: the decimal digits, after a minus sign when negative.\<close>

function showNat :: "nat \<Rightarrow> string" where
  "showNat n =
     (if n < 10 then [char_of (48 + n)] else showNat (n div 10) @ [char_of (48 + n mod 10)])"
  by pat_completeness auto
termination
  by (relation "measure id") auto

declare showNat.simps [simp del]

definition showInt :: "int \<Rightarrow> string" where
  "showInt i = (if i < 0 then CHR ''-'' # showNat (nat (- i)) else showNat (nat i))"

definition quoted :: "string \<Rightarrow> string" where
  "quoted name = [CHR 0x27] @ name @ [CHR 0x27]"

text \<open>
  One iteration of \<open>for _, year := range years\<close> in three parts: find the playlist and
  clear it, or create it; generate and upload the cover image; add the year's tracks.
  The image part has no \<open>return\<close>: both of its failure branches only log.
\<close>

definition clearOrCreate ::
  "nat \<Rightarrow> 'r SpotifyClient \<Rightarrow> User \<Rightarrow> int \<Rightarrow> string \<Rightarrow> 'r run \<Rightarrow> (error + ID) option \<times> 'r run" where
  "clearOrCreate n client user year playlistName s =
     (case findExistingPlaylist n client (user_ID user) playlistName s of
        (None, s1) \<Rightarrow> (None, s1)
      | (Some (Inl err), s1) \<Rightarrow> (Some (Inl err), s1)
      | (Some (Inr (Some existingPlaylist)), s1) \<Rightarrow>
          (case fetchAllPlaylistTracks n client (playlist_ID existingPlaylist) s1 of
             (None, s2) \<Rightarrow> (None, s2)
           | (Some (Inl err), s2) \<Rightarrow>
               (Some (Inl (Errorf (''could not fetch tracks from existing playlist ''
                                     @ quoted playlistName) err)), s2)
           | (Some (Inr tracksToRemove), s2) \<Rightarrow>
               (case removeTracksInBatches client (playlist_ID existingPlaylist) tracksToRemove s2 of
                  (None, s3) \<Rightarrow> (None, s3)
                | (Some (Inl err), s3) \<Rightarrow>
                    (Some (Inl (Errorf (''could not clear existing playlist ''
                                          @ quoted playlistName) err)), s3)
                | (Some (Inr u), s3) \<Rightarrow> (Some (Inr (playlist_ID existingPlaylist)), s3)))
      | (Some (Inr None), s1) \<Rightarrow>
          (let description = ''All songs I liked that were added in '' @ showInt year @ ''.''
           in case perform
                     (CreatePlaylistForUser_call (user_ID user) playlistName description False False)
                     plain
                     (CreatePlaylistForUser client (user_ID user) playlistName description False False)
                     s1 of
                (Inl err, s2) \<Rightarrow>
                  (Some (Inl (Errorf (''failed to create playlist for year '' @ showInt year) err)), s2)
              | (Inr newPlaylist, s2) \<Rightarrow> (Some (Inr (created_ID newPlaylist)), s2)))"

definition applyImage ::
  "'r SpotifyClient \<Rightarrow> 'r ImageGenerator \<Rightarrow> ID \<Rightarrow> string \<Rightarrow> 'r run \<Rightarrow> 'r run" where
  "applyImage client imgGen playlistID playlistName s =
     (case perform (GenerateForPlaylist_call playlistName) plain (imgGen playlistName) s of
        (Inl err, s') \<Rightarrow> s'
      | (Inr imageReader, s') \<Rightarrow>
          (case perform (SetPlaylistImage_call playlistID imageReader) plain
                  (SetPlaylistImage client playlistID imageReader) s' of
             (Inl err, s'') \<Rightarrow> s''
           | (Inr u, s'') \<Rightarrow> s''))"

definition processYear ::
  "nat \<Rightarrow> 'r SpotifyClient \<Rightarrow> 'r ImageGenerator \<Rightarrow> User \<Rightarrow> (int \<times> ID list) list \<Rightarrow> int \<Rightarrow> 'r run
     \<Rightarrow> (error + unit) option \<times> 'r run" where
  "processYear n client imgGen user tracksByYear year s =
     (let playlistName = ''Liked Songs ('' @ showInt year @ '')'';
          trackIDs = lookupIDs tracksByYear year
      in case clearOrCreate n client user year playlistName s of
           (None, s1) \<Rightarrow> (None, s1)
         | (Some (Inl err), s1) \<Rightarrow> (Some (Inl err), s1)
         | (Some (Inr playlistID), s1) \<Rightarrow>
             addTracksInBatches client playlistID trackIDs
               (applyImage client imgGen playlistID playlistName s1))"

fun yearsLoop ::
  "nat \<Rightarrow> 'r SpotifyClient \<Rightarrow> 'r ImageGenerator \<Rightarrow> User \<Rightarrow> (int \<times> ID list) list \<Rightarrow> int list \<Rightarrow> 'r run
     \<Rightarrow> (error + unit) option \<times> 'r run" where
  "yearsLoop n client imgGen user tracksByYear [] s = (Some (Inr ()), s)"
| "yearsLoop n client imgGen user tracksByYear (year # years) s =
     (case processYear n client imgGen user tracksByYear year s of
        (None, s') \<Rightarrow> (None, s')
      | (Some (Inl err), s') \<Rightarrow> (Some (Inl err), s')
      | (Some (Inr u), s') \<Rightarrow> yearsLoop n client imgGen user tracksByYear years s')"

definition playlistSorter_Run ::
  "nat \<Rightarrow> (string \<Rightarrow> int option) \<Rightarrow> 'r SpotifyClient \<Rightarrow> 'r ImageGenerator \<Rightarrow> 'r run
     \<Rightarrow> (error + unit) option \<times> 'r run" where
  "playlistSorter_Run n parseYear client imgGen s =
     (case fetchAllLikedTracks n client s of
        (None, s1) \<Rightarrow> (None, s1)
      | (Some (Inl err), s1) \<Rightarrow> (Some (Inl (Errorf ''failed to fetch liked tracks'' err)), s1)
      | (Some (Inr allTracks), s1) \<Rightarrow>
          if length allTracks = 0 then (Some (Inr ()), s1)
          else
            (let tracksByYear = groupTracksByYear parseYear allTracks
             in case perform CurrentUser_call plain (CurrentUser client) s1 of
                  (Inl err, s2) \<Rightarrow> (Some (Inl (Errorf ''failed to get current user'' err)), s2)
                | (Inr user, s2) \<Rightarrow>
                    yearsLoop n client imgGen user tracksByYear
                      (sort (map fst tracksByYear)) s2))"

section \<open>The artist filter\<close>



section \<open>An in-memory collaborator\<close>

text \<open>
  The remote service is not part of the program. For concrete runs, and for the
  properties that speak of the remote playlists' contents, this is a service that keeps
  the library and the playlists in memory and answers every method of the interface:
  pages are slices of the stored lists, removal from a playlist deletes every occurrence
  of the given identifiers, addition appends (and refuses an empty identifier, leaving the
  playlist as it is), creation appends a playlist with an unused identifier. Cover images
  are accepted and not kept: they are no part of a playlist's contents.
\<close>

record storedPlaylist =
  stored_ID :: ID
  stored_Name :: string
  stored_Owner :: string
  stored_Items :: "ID list"

record memory =
  mem_User :: string
  mem_Liked :: "SavedTrack list"
  mem_Playlists :: "storedPlaylist list"

definition slice :: "int \<Rightarrow> int \<Rightarrow> 'a list \<Rightarrow> 'a list" where
  "slice limit offset xs = take (nat limit) (drop (nat offset) xs)"

definition freshID :: "storedPlaylist list \<Rightarrow> ID" where
  "freshID pls = replicate (Suc (foldr max (map (\<lambda>p. length (stored_ID p)) pls) 0)) (CHR ''p'')"

definition hasPlaylist :: "memory \<Rightarrow> ID \<Rightarrow> bool" where
  "hasPlaylist r playlistID = (playlistID \<in> set (map stored_ID (mem_Playlists r)))"

definition changeItems :: "ID \<Rightarrow> (ID list \<Rightarrow> ID list) \<Rightarrow> memory \<Rightarrow> memory" where
  "changeItems playlistID f r =
     r\<lparr>mem_Playlists :=
         map (\<lambda>p. if stored_ID p = playlistID then p\<lparr>stored_Items := f (stored_Items p)\<rparr> else p)
           (mem_Playlists r)\<rparr>"

definition itemsOf :: "memory \<Rightarrow> ID \<Rightarrow> ID list" where
  "itemsOf r playlistID =
     (case find (\<lambda>p. stored_ID p = playlistID) (mem_Playlists r) of
        None \<Rightarrow> [] | Some p \<Rightarrow> stored_Items p)"

definition asSimplePlaylist :: "storedPlaylist \<Rightarrow> SimplePlaylist" where
  "asSimplePlaylist p =
     \<lparr>playlist_ID = stored_ID p, playlist_Name = stored_Name p,
      playlist_Owner = \<lparr>user_ID = stored_Owner p\<rparr>\<rparr>"

definition noSuchPlaylist :: error where
  "noSuchPlaylist = Err ''no such playlist''"

definition memoryClient :: "memory SpotifyClient" where
  "memoryClient =
     \<lparr>CurrentUser = (\<lambda>r. (Inr \<lparr>user_ID = mem_User r\<rparr>, r)),
      CurrentUsersTracks = (\<lambda>limit offset r.
        (Inr \<lparr>liked_Total = int (length (mem_Liked r)),
              liked_Tracks = slice limit offset (mem_Liked r)\<rparr>, r)),
      RemoveTracksFromLibrary = (\<lambda>ids r.
        (Inr (), r\<lparr>mem_Liked := filter (\<lambda>t. track_ID t \<notin> set ids) (mem_Liked r)\<rparr>)),
      CreatePlaylistForUser = (\<lambda>userID name description public collaborative r.
        (Inr \<lparr>created_ID = freshID (mem_Playlists r), created_Name = name\<rparr>,
         r\<lparr>mem_Playlists := mem_Playlists r @
              [\<lparr>stored_ID = freshID (mem_Playlists r), stored_Name = name, stored_Owner = userID,
                stored_Items = []\<rparr>]\<rparr>)),
      AddTracksToPlaylist = (\<lambda>playlistID ids r.
        if \<not> hasPlaylist r playlistID then (Inl noSuchPlaylist, r)
        else if [] \<in> set ids then (Inl (Err ''invalid track identifier''), r)
        else (Inr ''snapshot'', changeItems playlistID (\<lambda>items. items @ ids) r)),
      SetPlaylistImage = (\<lambda>playlistID img r.
        if \<not> hasPlaylist r playlistID then (Inl noSuchPlaylist, r)
        else (Inr (), r)),
      GetPlaylistsForUser = (\<lambda>userID limit offset r.
        (Inr \<lparr>Playlists = slice limit offset (map asSimplePlaylist (mem_Playlists r))\<rparr>, r)),
      GetPlaylistTracks = (\<lambda>playlistID limit offset r.
        if \<not> hasPlaylist r playlistID then (Inl noSuchPlaylist, r)
        else (Inr \<lparr>items_Total = int (length (itemsOf r playlistID)),
                   items_Tracks =
                     map (\<lambda>i. \<lparr>item_Track_ID = i\<rparr>) (slice limit offset (itemsOf r playlistID))\<rparr>,
              r)),
      RemoveTracksFromPlaylist = (\<lambda>playlistID ids r.
        if \<not> hasPlaylist r playlistID then (Inl noSuchPlaylist, r)
        else (Inr ''snapshot'',
              changeItems playlistID (\<lambda>items. filter (\<lambda>i. i \<notin> set ids) items) r))\<rparr>"

definition memoryImages :: "memory ImageGenerator" where
  "memoryImages name r = (Inr (''cover of '' @ name), r)"

definition savedTrack :: "ID \<Rightarrow> string list \<Rightarrow> string \<Rightarrow> SavedTrack" where
  "savedTrack i artists added =
     \<lparr>track_ID = i, track_Name = i, track_Artists = map (\<lambda>a. \<lparr>artist_Name = a\<rparr>) artists,
      AddedAt = added\<rparr>"

text \<open>Example data: a library of three liked tracks, and two states of the service.\<close>

definition likedExample :: "SavedTrack list" where
  "likedExample =
     [savedTrack ''a'' [''Good''] ''2023-01-01T00:00:00Z'',
      savedTrack ''b'' [''BadArtist'', ''Other''] ''2024-06-01T00:00:00Z'',
      savedTrack ''c'' [] ''2023-12-31T23:59:59Z'']"

definition freshRemote :: memory where
  "freshRemote = \<lparr>mem_User = ''me'', mem_Liked = likedExample, mem_Playlists = []\<rparr>"

definition usedRemote :: memory where
  "usedRemote =
     \<lparr>mem_User = ''me'', mem_Liked = likedExample,
      mem_Playlists =
        [\<lparr>stored_ID = ''q'', stored_Name = ''Liked Songs (2023)'', stored_Owner = ''me'',
          stored_Items = [''x'', ''y'']\<rparr>]\<rparr>"

definition refusingCreate :: "memory SpotifyClient" where
  "refusingCreate =
     memoryClient\<lparr>CreatePlaylistForUser :=
       (\<lambda>userID name description public collaborative r. (Inl (Err ''quota exceeded''), r))\<rparr>"



text \<open>A state with three playlists of one name: another user's, then two of the user's own.\<close>

definition crowdedRemote :: memory where
  "crowdedRemote =
     \<lparr>mem_User = ''me'', mem_Liked = likedExample,
      mem_Playlists =
        [\<lparr>stored_ID = ''z'', stored_Name = ''Liked Songs (2023)'', stored_Owner = ''other'',
          stored_Items = [''k'']\<rparr>,
         \<lparr>stored_ID = ''q'', stored_Name = ''Liked Songs (2023)'', stored_Owner = ''me'',
          stored_Items = [''x'', ''y'']\<rparr>,
         \<lparr>stored_ID = ''w'', stored_Name = ''Liked Songs (2023)'', stored_Owner = ''me'',
          stored_Items = []\<rparr>]\<rparr>"

section \<open>Reading the log\<close>

text \<open>
  What the properties below say about a log: whether an entry is a failed call, a page
  with or without items, a call of the image step; whether a returned error wraps a
  given one (the chain \<open>errors.Is\<close> follows); and, for the batch loops, the Batcher of the
  specification: the pure function from a sequence and a maximal batch size to the
  sequence of its consecutive batches.
\<close>

fun failure :: "outcome \<Rightarrow> bool" where
  "failure (Failed err) = True"
| "failure out = False"



fun isImageCall :: "call \<Rightarrow> bool" where
  "isImageCall (GenerateForPlaylist_call name) = True"
| "isImageCall (SetPlaylistImage_call playlistID img) = True"
| "isImageCall k = False"

fun wraps :: "error \<Rightarrow> error \<Rightarrow> bool" where
  "wraps (Err m) e = (Err m = e)"
| "wraps (Errorf p inner) e = (Errorf p inner = e \<or> wraps inner e)"

function Batcher :: "nat \<Rightarrow> 'a list \<Rightarrow> 'a list list" where
  "Batcher k xs = (if k = 0 \<or> xs = [] then [] else take k xs # Batcher k (drop k xs))"
  by pat_completeness auto
termination
  by (relation "measure (\<lambda>(k, xs). length xs)") auto

declare Batcher.simps [simp del]

text \<open>
  The log of a batch loop over the batches \<open>bl\<close>: one successful call per batch when it
  returns nil; the calls up to the first failing one when it returns that call's error.
\<close>

definition batchLog ::
  "(ID list \<Rightarrow> call) \<Rightarrow> (error + unit) option \<Rightarrow> ID list list \<Rightarrow> event list \<Rightarrow> bool" where
  "batchLog mk res bl ev =
     (case res of
        None \<Rightarrow> False
      | Some (Inr u) \<Rightarrow> ev = map (\<lambda>b. (mk b, Succeeded)) bl
      | Some (Inl err) \<Rightarrow>
          (\<exists>k e. k < length bl \<and> wraps err e \<and>
             ev = map (\<lambda>b. (mk b, Succeeded)) (take k bl) @ [(mk (bl ! k), Failed e)]))"

text \<open>
  A log is clean when every failure in it is a failure of the image step. A run fails
  fast when a returned error wraps the error of the last call logged, that call is not
  of the image step, and the log before it is clean; a run that returned nil or has not
  returned has a clean log.
\<close>

definition clean :: "event list \<Rightarrow> bool" where
  "clean ev = (\<forall>x \<in> set ev. failure (snd x) \<longrightarrow> isImageCall (fst x))"

definition failFast :: "(error + 'a) option \<Rightarrow> event list \<Rightarrow> bool" where
  "failFast res ev =
     (case res of
        Some (Inl err) \<Rightarrow>
          (\<exists>pre k e. ev = pre @ [(k, Failed e)] \<and> \<not> isImageCall k \<and> wraps err e \<and> clean pre)
      | _ \<Rightarrow> clean ev)"

text \<open>
  The call that follows a failed image call: an addition of a non-empty batch, to the
  playlist of the upload when the upload failed.
\<close>

fun followsImage :: "call \<Rightarrow> call \<Rightarrow> bool" where
  "followsImage (GenerateForPlaylist_call name) (AddTracksToPlaylist_call playlistID batch) =
     (batch \<noteq> [])"
| "followsImage (SetPlaylistImage_call p img) (AddTracksToPlaylist_call playlistID batch) =
     (p = playlistID \<and> batch \<noteq> [])"
| "followsImage k k' = False"

fun fillsAfterImage :: "event list \<Rightarrow> bool" where
  "fillsAfterImage [] = True"
| "fillsAfterImage [x] = (\<not> (isImageCall (fst x) \<and> failure (snd x)))"
| "fillsAfterImage (x # y # rest) =
     ((isImageCall (fst x) \<and> failure (snd x) \<longrightarrow> followsImage (fst x) (fst y))
      \<and> fillsAfterImage (y # rest))"


definition noImage :: "event list \<Rightarrow> bool" where
  "noImage ev = (\<forall>x \<in> set ev. \<not> isImageCall (fst x))"


text \<open>
  A paged playlist collection: in state \<open>r\<close> the client answers the listing of the user's
  playlists at every offset with a slice of the list \<open>pls\<close> that starts at that offset, of
  a length of the service's choosing but not empty while playlists remain, and the
  listing leaves the state as it is.
\<close>

definition servesPlaylists :: "'r SpotifyClient \<Rightarrow> string \<Rightarrow> 'r \<Rightarrow> SimplePlaylist list \<Rightarrow> bool" where
  "servesPlaylists client userID r pls =
     (\<forall>offset. \<exists>k. (offset < length pls \<longrightarrow> 0 < k) \<and>
        GetPlaylistsForUser client userID 50 (int offset) r =
          (Inr \<lparr>Playlists = take k (drop offset pls)\<rparr>, r))"



section \<open>What a year's step does to the in-memory service\<close>

text \<open>
  For the runs against the in-memory service: the playlist a year's step settles on (the
  first of the given name owned by the user), the identifiers the addition loop gets into
  a playlist before the service refuses a batch, what the loop returns, and the state
  the step leaves: the playlist found keeps its items without identifier and gets the
  addable identifiers after them; when none is found a new playlist with them is appended.
  \<open>settleYears\<close> follows the loop over the years, which ends at the first error.
\<close>

definition nameOf :: "int \<Rightarrow> string" where
  "nameOf year = ''Liked Songs ('' @ showInt year @ '')''"

definition target :: "string \<Rightarrow> string \<Rightarrow> storedPlaylist list \<Rightarrow> storedPlaylist option" where
  "target userID name pls = find (\<lambda>p. stored_Name p = name \<and> stored_Owner p = userID) pls"

definition addable :: "nat \<Rightarrow> ID list \<Rightarrow> ID list" where
  "addable batchSize trackIDs =
     concat (takeWhile (\<lambda>b. [] \<notin> set b) (Batcher batchSize trackIDs))"

definition fillResult :: "ID list \<Rightarrow> (error + unit) option" where
  "fillResult trackIDs =
     (if [] \<in> set trackIDs
      then Some (Inl (Errorf ''failed to add tracks to playlist'' (Err ''invalid track identifier'')))
      else Some (Inr ()))"

definition settle :: "string \<Rightarrow> ID list \<Rightarrow> memory \<Rightarrow> memory" where
  "settle name trackIDs r =
     (case target (mem_User r) name (mem_Playlists r) of
        Some p \<Rightarrow>
          changeItems (stored_ID p)
            (\<lambda>items. filter (\<lambda>i. i = []) items @ addable 100 trackIDs) r
      | None \<Rightarrow>
          r\<lparr>mem_Playlists := mem_Playlists r @
              [\<lparr>stored_ID = freshID (mem_Playlists r), stored_Name = name,
                stored_Owner = mem_User r, stored_Items = addable 100 trackIDs\<rparr>]\<rparr>)"

fun settleYears :: "(int \<times> ID list) list \<Rightarrow> int list \<Rightarrow> memory \<Rightarrow> (error + unit) option \<times> memory" where
  "settleYears tracksByYear [] r = (Some (Inr ()), r)"
| "settleYears tracksByYear (year # years) r =
     (if [] \<in> set (lookupIDs tracksByYear year)
      then (fillResult (lookupIDs tracksByYear year),
            settle (nameOf year) (lookupIDs tracksByYear year) r)
      else settleYears tracksByYear years (settle (nameOf year) (lookupIDs tracksByYear year) r))"



definition refill :: "ID list \<Rightarrow> ID list \<Rightarrow> ID list" where
  "refill trackIDs items = filter (\<lambda>i. i = []) items @ addable 100 trackIDs"


section \<open>The marked tracks of a page\<close>

lemma markTrack_eq:
  "markTrack artists item as ids =
     (if \<exists>a \<in> set as. artist_Name a \<in> artists then ids @ [track_ID item] else ids)"
  by (induction as) auto

lemma findTracksLoop_eq:
  "findTracksLoop artists ts ids =
     ids @ map track_ID (filter (\<lambda>item. \<exists>a \<in> set (track_Artists item). artist_Name a \<in> artists) ts)"
  by (induction ts arbitrary: ids) (simp_all add: markTrack_eq)

text \<open>
  Claim C10. \<open>findTracksToRemove\<close> returns the identifiers of exactly the tracks of the page
  that have at least one artist whose name is in the blocklist, once per such track entry
  however many of its artists are listed, in the order of the page.
\<close>

theorem findTracksToRemove_marks:
  "findTracksToRemove artists savedTracks =
     map track_ID
       (filter (\<lambda>item. \<exists>artist \<in> set (track_Artists item). artist_Name artist \<in> artists) savedTracks)"
  by (simp add: findTracksToRemove_def findTracksLoop_eq)

theorem findTracksToRemove_marks_witness:
  "findTracksToRemove (NewArtistSet [''BadArtist''])
     [savedTrack ''a'' [''Good''] '''', savedTrack ''b'' [''BadArtist'', ''Other'', ''BadArtist''] '''',
      savedTrack ''c'' [] '''', savedTrack ''d'' [''Other'', ''BadArtist''] '''']
   = [''b'', ''d'']"
  using findTracksToRemove_marks [of "NewArtistSet [''BadArtist'']"
     "[savedTrack ''a'' [''Good''] '''', savedTrack ''b'' [''BadArtist'', ''Other'', ''BadArtist''] '''',
      savedTrack ''c'' [] '''', savedTrack ''d'' [''Other'', ''BadArtist''] '''']"]
  by (simp add: NewArtistSet_def savedTrack_def)

section \<open>The year buckets\<close>

lemma lookupIDs_update:
  "lookupIDs (AList.update k v g) y = (if y = k then v else lookupIDs g y)"
  by (simp add: lookupIDs_def update_conv')

lemma groupLoop_lookup:
  "lookupIDs (groupLoop p ts g) y =
     lookupIDs g y @ map track_ID (filter (\<lambda>t. p (AddedAt t) = Some y) ts)"
  by (induction ts arbitrary: g) (auto simp: lookupIDs_update split: option.splits)

lemma keys_update: "fst ` set (AList.update k v g) = insert k (fst ` set g)"
  by (induction g) auto

lemma groupLoop_keys:
  "fst ` set (groupLoop p ts g) = fst ` set g \<union> {y. \<exists>t \<in> set ts. p (AddedAt t) = Some y}"
proof (induction ts arbitrary: g)
  case Nil
  then show ?case by simp
next
  case (Cons t ts)
  then show ?case by (cases "p (AddedAt t)") (auto simp: keys_update)
qed

lemma groupLoop_distinct:
  "distinct (map fst g) \<Longrightarrow> distinct (map fst (groupLoop p ts g))"
  by (induction ts arbitrary: g) (auto simp: distinct_update split: option.splits)

lemma mset_concat_update:
  "distinct (map fst g) \<Longrightarrow>
   mset (concat (map snd (AList.update k (lookupIDs g k @ [x]) g))) = mset (concat (map snd g)) + {#x#}"
proof (induction g)
  case Nil
  then show ?case by (simp add: lookupIDs_def)
next
  case (Cons a g)
  obtain y ids where a: "a = (y, ids)" by (cases a)
  show ?case
  proof (cases "y = k")
    case True
    then show ?thesis using a by (simp add: lookupIDs_def)
  next
    case False
    have "lookupIDs (a # g) k = lookupIDs g k" using False a by (simp add: lookupIDs_def)
    then show ?thesis using Cons False a by simp
  qed
qed

lemma groupLoop_mset:
  "distinct (map fst g) \<Longrightarrow>
   mset (concat (map snd (groupLoop p ts g))) =
     mset (concat (map snd g)) + mset (map track_ID (filter (\<lambda>t. p (AddedAt t) \<noteq> None) ts))"
proof (induction ts arbitrary: g)
  case Nil
  then show ?case by simp
next
  case (Cons t ts)
  show ?case
  proof (cases "p (AddedAt t)")
    case None
    then show ?thesis using Cons by simp
  next
    case (Some y)
    have d: "distinct (map fst (AList.update y (lookupIDs g y @ [track_ID t]) g))"
      using Cons.prems by (simp add: distinct_update)
    show ?thesis using Some Cons.IH [OF d] mset_concat_update [OF Cons.prems, of y "track_ID t"]
      by simp
  qed
qed

text \<open>
  Claim C3, as the code has it. The buckets of \<open>groupTracksByYear\<close> have distinct years;
  the bucket of a year holds, in fetch order, the identifiers of exactly the tracks whose
  added timestamp parses to that year, and is not empty; all buckets together hold the
  identifiers of the tracks whose timestamp parses, once per track entry (a track whose
  timestamp does not parse is in no bucket); and when the tracks' identifiers are distinct
  no identifier occurs twice in the buckets, so none is in two buckets.
\<close>

theorem groupTracksByYear_partition:
  "distinct (map fst (groupTracksByYear parseYear tracks)) \<and>
   (\<forall>(year, ids) \<in> set (groupTracksByYear parseYear tracks).
      ids = map track_ID (filter (\<lambda>t. parseYear (AddedAt t) = Some year) tracks) \<and> ids \<noteq> []) \<and>
   mset (concat (map snd (groupTracksByYear parseYear tracks))) =
     mset (map track_ID (filter (\<lambda>t. parseYear (AddedAt t) \<noteq> None) tracks)) \<and>
   (distinct (map track_ID tracks) \<longrightarrow>
      distinct (concat (map snd (groupTracksByYear parseYear tracks))))"
proof -
  let ?g = "groupTracksByYear parseYear tracks"
  have d: "distinct (map fst ?g)"
    by (simp add: groupTracksByYear_def groupLoop_distinct)
  have m: "mset (concat (map snd ?g)) =
      mset (map track_ID (filter (\<lambda>t. parseYear (AddedAt t) \<noteq> None) tracks))"
    using groupLoop_mset [of "[]" parseYear tracks] by (simp add: groupTracksByYear_def)
  have b: "ids = map track_ID (filter (\<lambda>t. parseYear (AddedAt t) = Some year) tracks) \<and> ids \<noteq> []"
    if "(year, ids) \<in> set ?g" for year ids
  proof -
    have "map_of ?g year = Some ids" using d that by simp
    then have "lookupIDs ?g year = ids" by (simp add: lookupIDs_def)
    then have e: "ids = map track_ID (filter (\<lambda>t. parseYear (AddedAt t) = Some year) tracks)"
      using groupLoop_lookup [of parseYear tracks "[]" year]
      by (simp add: groupTracksByYear_def lookupIDs_def)
    have "year \<in> set (map fst ?g)" using that by force
    then have "\<exists>t \<in> set tracks. parseYear (AddedAt t) = Some year"
      using groupLoop_keys [of parseYear tracks "[]"] by (simp add: groupTracksByYear_def)
    then have "filter (\<lambda>t. parseYear (AddedAt t) = Some year) tracks \<noteq> []"
      by (simp add: filter_empty_conv)
    then show ?thesis using e by simp
  qed
  have x: "distinct (concat (map snd ?g))" if "distinct (map track_ID tracks)"
  proof -
    have "distinct (map track_ID (filter (\<lambda>t. parseYear (AddedAt t) \<noteq> None) tracks))"
      using that by (rule distinct_map_filter)
    then show ?thesis using m mset_eq_imp_distinct_iff by blast
  qed
  show ?thesis using d m b x by blast
qed

theorem groupTracksByYear_partition_witness:
  "groupTracksByYear utcYear
     [savedTrack ''a'' [] ''2023-01-01T00:00:00Z'', savedTrack ''b'' [] ''2024-06-01T00:00:00Z'',
      savedTrack ''u'' [] ''last week'', savedTrack ''c'' [] ''2023-12-31T23:59:59Z'']
     = [(2023, [''a'', ''c'']), (2024, [''b''])] \<and>
   distinct (map track_ID [savedTrack ''a'' [] ''2023-01-01T00:00:00Z'', savedTrack ''b'' [] ''2024-06-01T00:00:00Z'',
      savedTrack ''u'' [] ''last week'', savedTrack ''c'' [] ''2023-12-31T23:59:59Z'']) \<and>
   distinct (concat (map snd (groupTracksByYear utcYear
     [savedTrack ''a'' [] ''2023-01-01T00:00:00Z'', savedTrack ''b'' [] ''2024-06-01T00:00:00Z'',
      savedTrack ''u'' [] ''last week'', savedTrack ''c'' [] ''2023-12-31T23:59:59Z''])))"
  using groupTracksByYear_partition [of utcYear
     "[savedTrack ''a'' [] ''2023-01-01T00:00:00Z'', savedTrack ''b'' [] ''2024-06-01T00:00:00Z'',
      savedTrack ''u'' [] ''last week'', savedTrack ''c'' [] ''2023-12-31T23:59:59Z'']"]
  by (simp add: groupTracksByYear_def savedTrack_def utcYear_def isDigit_def digitVal_def lookupIDs_def)

text \<open>
  Claim C3 as stated fails for a track whose timestamp does not parse: its identifier is in
  no bucket, so the buckets do not give back the original identifiers.
\<close>

theorem groupTracksByYear_unparsed_counterexample:
  "\<not> (mset (concat (map snd (groupTracksByYear utcYear
          [savedTrack ''a'' [] ''2023-01-01T00:00:00Z'', savedTrack ''u'' [] '''']))) =
       mset (map track_ID [savedTrack ''a'' [] ''2023-01-01T00:00:00Z'', savedTrack ''u'' [] '''']))"
  by (simp add: groupTracksByYear_def savedTrack_def utcYear_def isDigit_def digitVal_def lookupIDs_def)

section \<open>What a run logs\<close>

lemma perform_log:
  "perform k seen m s = (res, s') \<Longrightarrow>
     snd s' = snd s @ [(k, case res of Inl e \<Rightarrow> Failed e | Inr x \<Rightarrow> seen x)] \<and> m (fst s) = (res, fst s')"
  by (auto simp: perform_def split: prod.splits)

lemma wraps_refl [simp]: "wraps e e"
  by (cases e) simp_all

lemma clean_Nil [simp]: "clean []"
  by (simp add: clean_def)

lemma clean_Cons [simp]: "clean (x # ev) = ((failure (snd x) \<longrightarrow> isImageCall (fst x)) \<and> clean ev)"
  by (simp add: clean_def)

lemma clean_append [simp]: "clean (ev1 @ ev2) = (clean ev1 \<and> clean ev2)"
  by (auto simp: clean_def)

lemma failFast_None [simp]: "failFast None ev = clean ev"
  by (simp add: failFast_def)

lemma failFast_Inr [simp]: "failFast (Some (Inr v)) ev = clean ev"
  by (simp add: failFast_def)

lemma failFast_single:
  "\<not> isImageCall k \<Longrightarrow> wraps err e \<Longrightarrow> failFast (Some (Inl err)) [(k, Failed e)]"
  unfolding failFast_def by simp

lemma failFast_append:
  assumes "clean ev1" "failFast res ev2"
  shows "failFast res (ev1 @ ev2)"
proof (cases res)
  case None
  then show ?thesis using assms by simp
next
  case (Some a)
  show ?thesis
  proof (cases a)
    case (Inr v)
    then show ?thesis using assms Some by simp
  next
    case (Inl err)
    then obtain pre k e where "ev2 = pre @ [(k, Failed e)]" "\<not> isImageCall k" "wraps err e" "clean pre"
      using assms Some by (auto simp: failFast_def)
    then have "ev1 @ ev2 = (ev1 @ pre) @ [(k, Failed e)] \<and> \<not> isImageCall k \<and> wraps err e
       \<and> clean (ev1 @ pre)"
      using assms(1) by simp
    then show ?thesis unfolding failFast_def Some Inl by (simp only: option.case sum.case) blast
  qed
qed

lemma failFast_wrap:
  assumes "failFast (Some (Inl err)) ev"
  shows "failFast (Some (Inl (Errorf p err))) ev"
proof -
  obtain pre k e where "ev = pre @ [(k, Failed e)]" "\<not> isImageCall k" "wraps err e" "clean pre"
    using assms by (auto simp: failFast_def)
  then have "ev = pre @ [(k, Failed e)] \<and> \<not> isImageCall k \<and> wraps (Errorf p err) e \<and> clean pre"
    by simp
  then show ?thesis unfolding failFast_def by (simp only: option.case sum.case) blast
qed

lemma failFast_retype:
  "failFast (Some (Inl err) :: (error + 'a) option) ev \<Longrightarrow>
   failFast (Some (Inl err) :: (error + 'b) option) ev"
  by (simp add: failFast_def)

lemma fetchLikedLoop_log:
  "fetchLikedLoop n client offset allTracks s = (res, s') \<Longrightarrow>
     \<exists>ev. snd s' = snd s @ ev \<and> failFast res ev \<and>
       (\<forall>x \<in> set ev. \<exists>off. fst x = CurrentUsersTracks_call 50 off)"
proof (induction n arbitrary: offset allTracks s)
  case 0
  then show ?case by simp
next
  case (Suc n)
  obtain r1 s1 where p: "perform (CurrentUsersTracks_call 50 offset) LikedPage
      (CurrentUsersTracks client 50 offset) s = (r1, s1)"
    by (cases "perform (CurrentUsersTracks_call 50 offset) LikedPage
      (CurrentUsersTracks client 50 offset) s")
  note lg = perform_log [OF p]
  show ?case
  proof (cases r1)
    case (Inl err)
    then have "res = Some (Inl err)" "s' = s1" using Suc.prems p by simp_all
    then show ?thesis using lg Inl by (simp add: failFast_single)
  next
    case (Inr page)
    show ?thesis
    proof (cases "liked_Tracks page = []")
      case True
      then have "res = Some (Inr allTracks)" "s' = s1" using Suc.prems p Inr by simp_all
      then show ?thesis using lg Inr by simp
    next
      case False
      then have "fetchLikedLoop n client (offset + int (length (liked_Tracks page)))
          (allTracks @ liked_Tracks page) s1 = (res, s')"
        using Suc.prems p Inr by simp
      from Suc.IH [OF this] obtain ev where ev: "snd s' = snd s1 @ ev" "failFast res ev"
        "\<forall>x \<in> set ev. \<exists>off. fst x = CurrentUsersTracks_call 50 off" by blast
      have "snd s' = snd s @ ((CurrentUsersTracks_call 50 offset, LikedPage page) # ev)"
        using ev(1) lg Inr by simp
      moreover have "failFast res ((CurrentUsersTracks_call 50 offset, LikedPage page) # ev)"
        using failFast_append [of "[(CurrentUsersTracks_call 50 offset, LikedPage page)]" res ev] ev(2)
        by simp
      ultimately show ?thesis using ev(3) by fastforce
    qed
  qed
qed


lemma findPlaylistLoop_log:
  "findPlaylistLoop n client userID name offset s = (res, s') \<Longrightarrow>
     \<exists>ev. snd s' = snd s @ ev \<and> failFast res ev \<and>
       (\<forall>x \<in> set ev. \<exists>off. fst x = GetPlaylistsForUser_call userID 50 off)"
proof (induction n arbitrary: offset s)
  case 0
  then show ?case by simp
next
  case (Suc n)
  let ?k = "GetPlaylistsForUser_call userID 50 offset"
  obtain r1 s1 where p: "perform ?k PlaylistsPage (GetPlaylistsForUser client userID 50 offset) s = (r1, s1)"
    by (cases "perform ?k PlaylistsPage (GetPlaylistsForUser client userID 50 offset) s")
  note lg = perform_log [OF p]
  show ?case
  proof (cases r1)
    case (Inl err)
    then have "res = Some (Inl (Errorf ''failed to get user playlists'' err))" "s' = s1"
      using Suc.prems p by simp_all
    then show ?thesis using lg Inl by (simp add: failFast_single)
  next
    case (Inr page)
    show ?thesis
    proof (cases "find (isMatch userID name) (Playlists page)")
      case (Some found)
      then have "res = Some (Inr (Some found))" "s' = s1" using Suc.prems p Inr by simp_all
      then show ?thesis using lg Inr by simp
    next
      case None
      show ?thesis
      proof (cases "Playlists page = []")
        case True
        then have "res = Some (Inr None)" "s' = s1" using Suc.prems p Inr None by simp_all
        then show ?thesis using lg Inr by simp
      next
        case False
        then have "findPlaylistLoop n client userID name (offset + int (length (Playlists page))) s1
            = (res, s')"
          using Suc.prems p Inr None by simp
        from Suc.IH [OF this] obtain ev where ev: "snd s' = snd s1 @ ev" "failFast res ev"
          "\<forall>x \<in> set ev. \<exists>off. fst x = GetPlaylistsForUser_call userID 50 off" by blast
        have "snd s' = snd s @ ((?k, PlaylistsPage page) # ev)"
          using ev(1) lg Inr by simp
        moreover have "failFast res ((?k, PlaylistsPage page) # ev)"
          using failFast_append [of "[(?k, PlaylistsPage page)]" res ev] ev(2) by simp
        ultimately show ?thesis using ev(3) by fastforce
      qed
    qed
  qed
qed

lemma fetchPlaylistLoop_log:
  "fetchPlaylistLoop n client playlistID offset allTrackIDs s = (res, s') \<Longrightarrow>
     \<exists>ev. snd s' = snd s @ ev \<and> failFast res ev \<and>
       (\<forall>x \<in> set ev. \<exists>off. fst x = GetPlaylistTracks_call playlistID 100 off)"
proof (induction n arbitrary: offset allTrackIDs s)
  case 0
  then show ?case by simp
next
  case (Suc n)
  let ?k = "GetPlaylistTracks_call playlistID 100 offset"
  obtain r1 s1 where p: "perform ?k ItemsPage (GetPlaylistTracks client playlistID 100 offset) s = (r1, s1)"
    by (cases "perform ?k ItemsPage (GetPlaylistTracks client playlistID 100 offset) s")
  note lg = perform_log [OF p]
  show ?case
  proof (cases r1)
    case (Inl err)
    then have "res = Some (Inl err)" "s' = s1" using Suc.prems p by simp_all
    then show ?thesis using lg Inl by (simp add: failFast_single)
  next
    case (Inr page)
    show ?thesis
    proof (cases "items_Tracks page = []")
      case True
      then have "res = Some (Inr allTrackIDs)" "s' = s1" using Suc.prems p Inr by simp_all
      then show ?thesis using lg Inr by simp
    next
      case False
      then have "fetchPlaylistLoop n client playlistID (offset + int (length (items_Tracks page)))
          (allTrackIDs @ filter (\<lambda>i. i \<noteq> []) (map item_Track_ID (items_Tracks page))) s1 = (res, s')"
        using Suc.prems p Inr by simp
      from Suc.IH [OF this] obtain ev where ev: "snd s' = snd s1 @ ev" "failFast res ev"
        "\<forall>x \<in> set ev. \<exists>off. fst x = GetPlaylistTracks_call playlistID 100 off" by blast
      have "snd s' = snd s @ ((?k, ItemsPage page) # ev)"
        using ev(1) lg Inr by simp
      moreover have "failFast res ((?k, ItemsPage page) # ev)"
        using failFast_append [of "[(?k, ItemsPage page)]" res ev] ev(2) by simp
      ultimately show ?thesis using ev(3) by fastforce
    qed
  qed
qed

lemma noImage_simps [simp]:
  "noImage []" "noImage (x # ev) = (\<not> isImageCall (fst x) \<and> noImage ev)"
  "noImage (ev1 @ ev2) = (noImage ev1 \<and> noImage ev2)"
  by (auto simp: noImage_def)

lemma batchLog_failFast:
  assumes "\<And>b. \<not> isImageCall (mk b)" "batchLog mk res bl ev"
  shows "failFast res ev \<and> noImage ev"
proof (cases res)
  case None
  then show ?thesis using assms by (simp add: batchLog_def)
next
  case (Some a)
  show ?thesis
  proof (cases a)
    case (Inr u)
    then show ?thesis using assms Some by (auto simp: batchLog_def clean_def noImage_def)
  next
    case (Inl err)
    then obtain k e where k: "k < length bl" "wraps err e"
      "ev = map (\<lambda>b. (mk b, Succeeded)) (take k bl) @ [(mk (bl ! k), Failed e)]"
      using assms Some by (auto simp: batchLog_def)
    have c: "clean (map (\<lambda>b. (mk b, Succeeded)) (take k bl))" by (auto simp: clean_def)
    have "ev = map (\<lambda>b. (mk b, Succeeded)) (take k bl) @ [(mk (bl ! k), Failed e)]
       \<and> \<not> isImageCall (mk (bl ! k)) \<and> wraps err e \<and> clean (map (\<lambda>b. (mk b, Succeeded)) (take k bl))"
      using k c assms(1) by simp
    then have "failFast res ev"
      unfolding failFast_def Some Inl by (simp only: option.case sum.case) blast
    moreover have "noImage ev" using k(3) assms(1) by (auto simp: noImage_def)
    ultimately show ?thesis by simp
  qed
qed

lemma batchLog_first:
  assumes "batchLog mk res (b # bl) ev"
  shows "\<exists>out rest. ev = (mk b, out) # rest"
proof (cases res)
  case None
  then show ?thesis using assms by (simp add: batchLog_def)
next
  case (Some a)
  show ?thesis
  proof (cases a)
    case (Inr u)
    then show ?thesis using assms Some by (simp add: batchLog_def)
  next
    case (Inl err)
    then obtain k e where k: "k < length (b # bl)"
      "ev = map (\<lambda>b. (mk b, Succeeded)) (take k (b # bl)) @ [(mk ((b # bl) ! k), Failed e)]"
      using assms Some by (auto simp: batchLog_def)
    show ?thesis using k by (cases k) simp_all
  qed
qed

lemma Batcher_step:
  "0 < k \<Longrightarrow> i < length xs \<Longrightarrow>
     Batcher k (drop i xs) = take k (drop i xs) # Batcher k (drop (i + k) xs)"
  by (subst Batcher.simps) (simp add: add.commute)

lemma Batcher_Nil [simp]: "Batcher k [] = []"
  by (subst Batcher.simps) simp

lemma batch_slice:
  "i < length xs \<Longrightarrow>
     take ((if length xs < i + k then length xs else i + k) - i) (drop i xs) = take k (drop i xs)"
  by simp

lemma batchLog_step:
  assumes "batchLog mk res bl ev"
  shows "batchLog mk res (b # bl) ((mk b, Succeeded) # ev)"
proof (cases res)
  case None
  then show ?thesis using assms by (simp add: batchLog_def)
next
  case (Some a)
  show ?thesis
  proof (cases a)
    case (Inr u)
    then show ?thesis using assms Some by (simp add: batchLog_def)
  next
    case (Inl err)
    then obtain k e where k: "k < length bl" "wraps err e"
      "ev = map (\<lambda>b. (mk b, Succeeded)) (take k bl) @ [(mk (bl ! k), Failed e)]"
      using assms Some by (auto simp: batchLog_def)
    have "Suc k < length (b # bl) \<and> wraps err e \<and>
       (mk b, Succeeded) # ev =
         map (\<lambda>b. (mk b, Succeeded)) (take (Suc k) (b # bl)) @ [(mk ((b # bl) ! Suc k), Failed e)]"
      using k by simp
    then have "\<exists>k' e. k' < length (b # bl) \<and> wraps err e \<and>
       (mk b, Succeeded) # ev =
         map (\<lambda>b. (mk b, Succeeded)) (take k' (b # bl)) @ [(mk ((b # bl) ! k'), Failed e)]"
      by blast
    then show ?thesis unfolding batchLog_def Some Inl by simp
  qed
qed

lemma addBatchLoop_step:
  "0 < batchSize \<Longrightarrow> i < length trackIDs \<Longrightarrow>
     addBatchLoop client playlistID trackIDs batchSize i s =
       (case perform (AddTracksToPlaylist_call playlistID (take batchSize (drop i trackIDs))) plain
               (AddTracksToPlaylist client playlistID (take batchSize (drop i trackIDs))) s of
          (Inl err, s') \<Rightarrow> (Some (Inl (Errorf ''failed to add tracks to playlist'' err)), s')
        | (Inr snapshot, s') \<Rightarrow> addBatchLoop client playlistID trackIDs batchSize (i + batchSize) s')"
  by (subst addBatchLoop.simps) (simp add: Let_def batch_slice)

lemma addBatchLoop_stop:
  "0 < batchSize \<Longrightarrow> \<not> i < length trackIDs \<Longrightarrow>
     addBatchLoop client playlistID trackIDs batchSize i s = (Some (Inr ()), s)"
  by (subst addBatchLoop.simps) simp

lemma addBatchLoop_log:
  "0 < batchSize \<Longrightarrow> addBatchLoop client playlistID trackIDs batchSize i s = (res, s') \<Longrightarrow>
     \<exists>ev. snd s' = snd s @ ev \<and>
       batchLog (AddTracksToPlaylist_call playlistID) res (Batcher batchSize (drop i trackIDs)) ev"
proof (induction "length trackIDs - i" arbitrary: i s rule: less_induct)
  case less
  show ?case
  proof (cases "i < length trackIDs")
    case False
    then have "res = Some (Inr ())" "s' = s"
      using less.prems by (simp_all add: addBatchLoop_stop)
    then show ?thesis using False by (simp add: batchLog_def)
  next
    case True
    let ?batch = "take batchSize (drop i trackIDs)"
    obtain r1 s1 where p: "perform (AddTracksToPlaylist_call playlistID ?batch) plain
        (AddTracksToPlaylist client playlistID ?batch) s = (r1, s1)"
      by (cases "perform (AddTracksToPlaylist_call playlistID ?batch) plain
        (AddTracksToPlaylist client playlistID ?batch) s")
    note lg = perform_log [OF p]
    note bs = Batcher_step [OF less.prems(1) True]
    show ?thesis
    proof (cases r1)
      case (Inl err)
      then have "res = Some (Inl (Errorf ''failed to add tracks to playlist'' err))" "s' = s1"
        using less.prems True p by (simp_all add: addBatchLoop_step)
      then show ?thesis using lg Inl bs unfolding batchLog_def by simp
    next
      case (Inr snapshot)
      then have rec: "addBatchLoop client playlistID trackIDs batchSize (i + batchSize) s1 = (res, s')"
        using less.prems True p by (simp add: addBatchLoop_step)
      have "length trackIDs - (i + batchSize) < length trackIDs - i"
        using True less.prems(1) by simp
      from less.hyps [OF this less.prems(1) rec]
      obtain ev where ev: "snd s' = snd s1 @ ev"
        "batchLog (AddTracksToPlaylist_call playlistID) res
           (Batcher batchSize (drop (i + batchSize) trackIDs)) ev" by blast
      have "snd s' = snd s @ ((AddTracksToPlaylist_call playlistID ?batch, Succeeded) # ev)"
        using ev lg Inr by (simp add: plain_def)
      moreover have "batchLog (AddTracksToPlaylist_call playlistID) res
           (Batcher batchSize (drop i trackIDs))
           ((AddTracksToPlaylist_call playlistID ?batch, Succeeded) # ev)"
        using batchLog_step [OF ev(2)] bs by simp
      ultimately show ?thesis by blast
    qed
  qed
qed

lemma removeBatchLoop_step:
  "0 < batchSize \<Longrightarrow> i < length trackIDs \<Longrightarrow>
     removeBatchLoop client playlistID trackIDs batchSize i s =
       (case perform (RemoveTracksFromPlaylist_call playlistID (take batchSize (drop i trackIDs))) plain
               (RemoveTracksFromPlaylist client playlistID (take batchSize (drop i trackIDs))) s of
          (Inl err, s') \<Rightarrow> (Some (Inl (Errorf ''failed to remove tracks from playlist'' err)), s')
        | (Inr snapshot, s') \<Rightarrow> removeBatchLoop client playlistID trackIDs batchSize (i + batchSize) s')"
  by (subst removeBatchLoop.simps) (simp add: Let_def batch_slice)

lemma removeBatchLoop_stop:
  "0 < batchSize \<Longrightarrow> \<not> i < length trackIDs \<Longrightarrow>
     removeBatchLoop client playlistID trackIDs batchSize i s = (Some (Inr ()), s)"
  by (subst removeBatchLoop.simps) simp

lemma removeBatchLoop_log:
  "0 < batchSize \<Longrightarrow> removeBatchLoop client playlistID trackIDs batchSize i s = (res, s') \<Longrightarrow>
     \<exists>ev. snd s' = snd s @ ev \<and>
       batchLog (RemoveTracksFromPlaylist_call playlistID) res (Batcher batchSize (drop i trackIDs)) ev"
proof (induction "length trackIDs - i" arbitrary: i s rule: less_induct)
  case less
  show ?case
  proof (cases "i < length trackIDs")
    case False
    then have "res = Some (Inr ())" "s' = s"
      using less.prems by (simp_all add: removeBatchLoop_stop)
    then show ?thesis using False by (simp add: batchLog_def)
  next
    case True
    let ?batch = "take batchSize (drop i trackIDs)"
    obtain r1 s1 where p: "perform (RemoveTracksFromPlaylist_call playlistID ?batch) plain
        (RemoveTracksFromPlaylist client playlistID ?batch) s = (r1, s1)"
      by (cases "perform (RemoveTracksFromPlaylist_call playlistID ?batch) plain
        (RemoveTracksFromPlaylist client playlistID ?batch) s")
    note lg = perform_log [OF p]
    note bs = Batcher_step [OF less.prems(1) True]
    show ?thesis
    proof (cases r1)
      case (Inl err)
      then have "res = Some (Inl (Errorf ''failed to remove tracks from playlist'' err))" "s' = s1"
        using less.prems True p by (simp_all add: removeBatchLoop_step)
      then show ?thesis using lg Inl bs unfolding batchLog_def by simp
    next
      case (Inr snapshot)
      then have rec: "removeBatchLoop client playlistID trackIDs batchSize (i + batchSize) s1 = (res, s')"
        using less.prems True p by (simp add: removeBatchLoop_step)
      have "length trackIDs - (i + batchSize) < length trackIDs - i"
        using True less.prems(1) by simp
      from less.hyps [OF this less.prems(1) rec]
      obtain ev where ev: "snd s' = snd s1 @ ev"
        "batchLog (RemoveTracksFromPlaylist_call playlistID) res
           (Batcher batchSize (drop (i + batchSize) trackIDs)) ev" by blast
      have "snd s' = snd s @ ((RemoveTracksFromPlaylist_call playlistID ?batch, Succeeded) # ev)"
        using ev lg Inr by (simp add: plain_def)
      moreover have "batchLog (RemoveTracksFromPlaylist_call playlistID) res
           (Batcher batchSize (drop i trackIDs))
           ((RemoveTracksFromPlaylist_call playlistID ?batch, Succeeded) # ev)"
        using batchLog_step [OF ev(2)] bs by simp
      ultimately show ?thesis by blast
    qed
  qed
qed

lemma Batcher_nonempty:
  "0 < k \<Longrightarrow> xs \<noteq> [] \<Longrightarrow> \<exists>b bl. Batcher k xs = b # bl \<and> b \<noteq> []"
  by (subst Batcher.simps) simp

lemma addTracksInBatches_log:
  assumes "addTracksInBatches client playlistID trackIDs s = (res, s')"
  shows "\<exists>ev. snd s' = snd s @ ev \<and> failFast res ev \<and> noImage ev \<and>
     (trackIDs \<noteq> [] \<longrightarrow>
        (\<exists>batch out rest. ev = (AddTracksToPlaylist_call playlistID batch, out) # rest \<and> batch \<noteq> []))"
proof -
  have "\<exists>ev. snd s' = snd s @ ev \<and>
       batchLog (AddTracksToPlaylist_call playlistID) res (Batcher 100 (drop 0 trackIDs)) ev"
    using assms unfolding addTracksInBatches_def by (intro addBatchLoop_log) simp_all
  then obtain ev where ev: "snd s' = snd s @ ev"
    "batchLog (AddTracksToPlaylist_call playlistID) res (Batcher 100 trackIDs) ev" by auto
  have ff: "failFast res ev \<and> noImage ev"
    using batchLog_failFast [OF _ ev(2)] by simp
  have "\<exists>batch out rest. ev = (AddTracksToPlaylist_call playlistID batch, out) # rest \<and> batch \<noteq> []"
    if ne: "trackIDs \<noteq> []"
  proof -
    obtain b bl where b: "Batcher 100 trackIDs = b # bl" "b \<noteq> []"
      using Batcher_nonempty [of 100 trackIDs] ne by auto
    show ?thesis using batchLog_first [of "AddTracksToPlaylist_call playlistID" res b bl ev] ev(2) b
      by auto
  qed
  then show ?thesis using ev(1) ff by blast
qed

lemma removeTracksInBatches_log:
  assumes "removeTracksInBatches client playlistID trackIDs s = (res, s')"
  shows "\<exists>ev. snd s' = snd s @ ev \<and> failFast res ev \<and> noImage ev"
proof (cases "trackIDs = []")
  case True
  then show ?thesis using assms by (auto simp: removeTracksInBatches_def)
next
  case False
  have "\<exists>ev. snd s' = snd s @ ev \<and>
       batchLog (RemoveTracksFromPlaylist_call playlistID) res (Batcher 100 (drop 0 trackIDs)) ev"
    using assms False unfolding removeTracksInBatches_def by (intro removeBatchLoop_log) simp_all
  then obtain ev where ev: "snd s' = snd s @ ev"
    "batchLog (RemoveTracksFromPlaylist_call playlistID) res (Batcher 100 trackIDs) ev" by auto
  show ?thesis using batchLog_failFast [OF _ ev(2)] ev(1) by auto
qed

lemma noImage_of_calls:
  "(\<forall>x \<in> set ev. \<exists>off. fst x = K off) \<Longrightarrow> (\<And>off. \<not> isImageCall (K off)) \<Longrightarrow> noImage ev"
  by (auto simp: noImage_def)

lemma findExistingPlaylist_log:
  assumes "findExistingPlaylist n client userID name s = (res, s')"
  shows "\<exists>ev. snd s' = snd s @ ev \<and> failFast res ev \<and> noImage ev"
proof -
  obtain ev where ev: "snd s' = snd s @ ev" "failFast res ev"
      "\<forall>x \<in> set ev. \<exists>off. fst x = GetPlaylistsForUser_call userID 50 off"
    using findPlaylistLoop_log assms unfolding findExistingPlaylist_def by blast
  have "noImage ev" using ev(3) by (rule noImage_of_calls) simp
  then show ?thesis using ev by blast
qed

lemma fetchAllPlaylistTracks_log:
  assumes "fetchAllPlaylistTracks n client playlistID s = (res, s')"
  shows "\<exists>ev. snd s' = snd s @ ev \<and> failFast res ev \<and> noImage ev"
proof -
  obtain ev where ev: "snd s' = snd s @ ev" "failFast res ev"
      "\<forall>x \<in> set ev. \<exists>off. fst x = GetPlaylistTracks_call playlistID 100 off"
    using fetchPlaylistLoop_log assms unfolding fetchAllPlaylistTracks_def by blast
  have "noImage ev" using ev(3) by (rule noImage_of_calls) simp
  then show ?thesis using ev by blast
qed

lemma clearOrCreate_log:
  assumes "clearOrCreate n client user year playlistName s = (res, s')"
  shows "\<exists>ev. snd s' = snd s @ ev \<and> failFast res ev \<and> noImage ev"
proof -
  obtain r1 s1 where f: "findExistingPlaylist n client (user_ID user) playlistName s = (r1, s1)"
    by (cases "findExistingPlaylist n client (user_ID user) playlistName s")
  from findExistingPlaylist_log [OF f] obtain ev1 where
    ev1: "snd s1 = snd s @ ev1" "failFast r1 ev1" "noImage ev1" by blast
  show ?thesis
  proof (cases r1)
    case None
    then have "res = None" "s' = s1" using assms f by (simp_all add: clearOrCreate_def)
    then show ?thesis using ev1 None by auto
  next
    case (Some a)
    show ?thesis
    proof (cases a)
      case (Inl err)
      then have "res = Some (Inl err)" "s' = s1" using assms f Some by (simp_all add: clearOrCreate_def)
      then show ?thesis using ev1 Some Inl failFast_retype by blast
    next
      case (Inr found)
      then have c1: "clean ev1" using ev1(2) Some by simp
      show ?thesis
      proof (cases found)
        case None
        let ?d = "''All songs I liked that were added in '' @ showInt year @ ''.''"
        let ?k = "CreatePlaylistForUser_call (user_ID user) playlistName ?d False False"
        obtain r2 s2 where p: "perform ?k plain
            (CreatePlaylistForUser client (user_ID user) playlistName ?d False False) s1 = (r2, s2)"
          by (cases "perform ?k plain
            (CreatePlaylistForUser client (user_ID user) playlistName ?d False False) s1")
        note lg = perform_log [OF p]
        show ?thesis
        proof (cases r2)
          case (Inl err)
          then have "res = Some (Inl (Errorf (''failed to create playlist for year '' @ showInt year) err))"
              "s' = s2"
            using assms f Some Inr None p by (simp_all add: clearOrCreate_def Let_def)
          moreover have "failFast (Some (Inl (Errorf (''failed to create playlist for year '' @ showInt year) err)) :: (error + ID) option)
              (ev1 @ [(?k, Failed err)])"
            by (rule failFast_append [OF c1]) (simp add: failFast_single)
          ultimately show ?thesis using lg Inl ev1 by (intro exI [of _ "ev1 @ [(?k, Failed err)]"]) simp
        next
          case (Inr newPlaylist)
          then have "res = Some (Inr (created_ID newPlaylist))" "s' = s2"
            using assms f Some \<open>a = Inr found\<close> None p by (simp_all add: clearOrCreate_def Let_def)
          then show ?thesis using lg Inr ev1 c1
            by (intro exI [of _ "ev1 @ [(?k, Succeeded)]"]) (simp add: plain_def)
        qed
      next
        case (Some existingPlaylist)
        let ?pid = "playlist_ID existingPlaylist"
        obtain r2 s2 where t: "fetchAllPlaylistTracks n client ?pid s1 = (r2, s2)"
          by (cases "fetchAllPlaylistTracks n client ?pid s1")
        from fetchAllPlaylistTracks_log [OF t] obtain ev2 where
          ev2: "snd s2 = snd s1 @ ev2" "failFast r2 ev2" "noImage ev2" by blast
        have r1: "r1 = Some (Inr (Some existingPlaylist))" using \<open>r1 = Some a\<close> Inr Some by simp
        show ?thesis
        proof (cases r2)
          case None
          then have "res = None" "s' = s2" using assms f r1 t by (simp_all add: clearOrCreate_def)
          then show ?thesis using ev1 ev2 c1 None by (intro exI [of _ "ev1 @ ev2"]) simp
        next
          case (Some a2)
          show ?thesis
          proof (cases a2)
            case (Inl err)
            then have "res = Some (Inl (Errorf (''could not fetch tracks from existing playlist ''
                                     @ quoted playlistName) err))" "s' = s2"
              using assms f r1 t Some by (simp_all add: clearOrCreate_def)
            moreover have "failFast (Some (Inl (Errorf (''could not fetch tracks from existing playlist ''
                                     @ quoted playlistName) err)) :: (error + ID) option) (ev1 @ ev2)"
              using ev2(2) Some Inl
              by (intro failFast_append [OF c1] failFast_wrap) (auto intro: failFast_retype)
            ultimately show ?thesis using ev1 ev2 by (intro exI [of _ "ev1 @ ev2"]) simp
          next
            case (Inr tracksToRemove)
            then have c2: "clean ev2" using ev2(2) Some by simp
            obtain r3 s3 where rm: "removeTracksInBatches client ?pid tracksToRemove s2 = (r3, s3)"
              by (cases "removeTracksInBatches client ?pid tracksToRemove s2")
            from removeTracksInBatches_log [OF rm] obtain ev3 where
              ev3: "snd s3 = snd s2 @ ev3" "failFast r3 ev3" "noImage ev3" by blast
            have r2: "r2 = Some (Inr tracksToRemove)" using Some Inr by simp
            have lg: "snd s3 = snd s @ (ev1 @ ev2 @ ev3)" using ev1 ev2 ev3 by simp
            have ni: "noImage (ev1 @ ev2 @ ev3)" using ev1 ev2 ev3 by simp
            show ?thesis
            proof (cases r3)
              case None
              then have "res = None" "s' = s3" using assms f r1 t r2 rm by (simp_all add: clearOrCreate_def)
              then show ?thesis using lg ni c1 c2 ev3(2) None
                by (intro exI [of _ "ev1 @ ev2 @ ev3"]) simp
            next
              case (Some a3)
              show ?thesis
              proof (cases a3)
                case (Inl err)
                then have "res = Some (Inl (Errorf (''could not clear existing playlist ''
                                          @ quoted playlistName) err))" "s' = s3"
                  using assms f r1 t r2 rm Some by (simp_all add: clearOrCreate_def)
                moreover have "failFast (Some (Inl (Errorf (''could not clear existing playlist ''
                                          @ quoted playlistName) err)) :: (error + ID) option) (ev1 @ ev2 @ ev3)"
                  using ev3(2) Some Inl
                  by (intro failFast_append [OF c1] failFast_append [OF c2] failFast_wrap)
                     (auto intro: failFast_retype)
                ultimately show ?thesis using lg ni by (intro exI [of _ "ev1 @ ev2 @ ev3"]) simp
              next
                case (Inr u)
                then have "res = Some (Inr ?pid)" "s' = s3"
                  using assms f r1 t r2 rm Some by (simp_all add: clearOrCreate_def)
                then show ?thesis using lg ni c1 c2 ev3(2) Some Inr
                  by (intro exI [of _ "ev1 @ ev2 @ ev3"]) simp
              qed
            qed
          qed
        qed
      qed
    qed
  qed
qed


lemma fillsAfterImage_noImage: "noImage ev \<Longrightarrow> fillsAfterImage ev"
  by (induction ev rule: fillsAfterImage.induct) simp_all

lemma fillsAfterImage_append:
  "fillsAfterImage ev1 \<Longrightarrow> fillsAfterImage ev2 \<Longrightarrow> fillsAfterImage (ev1 @ ev2)"
proof (induction ev1 rule: fillsAfterImage.induct)
  case 1
  then show ?case by simp
next
  case (2 x)
  then show ?case by (cases ev2) auto
next
  case (3 x y rest)
  then show ?case by simp
qed

lemma applyImage_log:
  assumes "applyImage client imgGen playlistID playlistName s = s'"
  shows "\<exists>ev. snd s' = snd s @ ev \<and> clean ev \<and>
     (\<forall>batch out rest. batch \<noteq> [] \<longrightarrow>
        fillsAfterImage (ev @ (AddTracksToPlaylist_call playlistID batch, out) # rest)
          = fillsAfterImage ((AddTracksToPlaylist_call playlistID batch, out) # rest))"
proof -
  let ?g = "GenerateForPlaylist_call playlistName"
  obtain r1 s1 where p: "perform ?g plain (imgGen playlistName) s = (r1, s1)"
    by (cases "perform ?g plain (imgGen playlistName) s")
  note lg = perform_log [OF p]
  show ?thesis
  proof (cases r1)
    case (Inl err)
    then have "s' = s1" using assms p by (simp add: applyImage_def)
    then show ?thesis using lg Inl by (intro exI [of _ "[(?g, Failed err)]"]) simp
  next
    case (Inr imageReader)
    let ?u = "SetPlaylistImage_call playlistID imageReader"
    obtain r2 s2 where q: "perform ?u plain (SetPlaylistImage client playlistID imageReader) s1 = (r2, s2)"
      by (cases "perform ?u plain (SetPlaylistImage client playlistID imageReader) s1")
    note lg2 = perform_log [OF q]
    have "s' = s2" using assms p q Inr by (cases r2) (simp_all add: applyImage_def)
    then show ?thesis using lg lg2 Inr
      by (intro exI [of _ "[(?g, Succeeded), (?u, case r2 of Inl e \<Rightarrow> Failed e | Inr x \<Rightarrow> plain x)]"])
         (simp add: plain_def split: sum.splits)
  qed
qed

lemma processYear_log:
  assumes "processYear n client imgGen user tracksByYear year s = (res, s')"
    and "lookupIDs tracksByYear year \<noteq> []"
  shows "\<exists>ev. snd s' = snd s @ ev \<and> failFast res ev \<and> fillsAfterImage ev"
proof -
  let ?name = "''Liked Songs ('' @ showInt year @ '')''"
  obtain r1 s1 where c: "clearOrCreate n client user year ?name s = (r1, s1)"
    by (cases "clearOrCreate n client user year ?name s")
  from clearOrCreate_log [OF c] obtain ev1 where
    ev1: "snd s1 = snd s @ ev1" "failFast r1 ev1" "noImage ev1" by blast
  note f1 = fillsAfterImage_noImage [OF ev1(3)]
  show ?thesis
  proof (cases r1)
    case None
    then have "res = None" "s' = s1" using assms c by (simp_all add: processYear_def)
    then show ?thesis using ev1 None f1 by auto
  next
    case (Some a)
    show ?thesis
    proof (cases a)
      case (Inl err)
      then have "res = Some (Inl err)" "s' = s1" using assms c Some by (simp_all add: processYear_def)
      then show ?thesis using ev1 Some Inl f1 failFast_retype by blast
    next
      case (Inr playlistID)
      then have c1: "clean ev1" using ev1(2) Some by simp
      obtain s2 where i: "applyImage client imgGen playlistID ?name s1 = s2" by simp
      from applyImage_log [OF i] obtain ev2 where ev2: "snd s2 = snd s1 @ ev2" "clean ev2"
        "\<forall>batch out rest. batch \<noteq> [] \<longrightarrow>
          fillsAfterImage (ev2 @ (AddTracksToPlaylist_call playlistID batch, out) # rest)
            = fillsAfterImage ((AddTracksToPlaylist_call playlistID batch, out) # rest)" by blast
      have a: "addTracksInBatches client playlistID (lookupIDs tracksByYear year) s2 = (res, s')"
        using assms c Some Inr i by (simp add: processYear_def)
      from addTracksInBatches_log [OF a] assms(2) obtain ev3 batch out rest where
        ev3: "snd s' = snd s2 @ ev3" "failFast res ev3" "noImage ev3"
          "ev3 = (AddTracksToPlaylist_call playlistID batch, out) # rest" "batch \<noteq> []" by blast
      have "fillsAfterImage (ev2 @ ev3)"
        using ev2(3) ev3(4,5) fillsAfterImage_noImage [OF ev3(3)] by simp
      then have "fillsAfterImage (ev1 @ ev2 @ ev3)" using f1 by (rule fillsAfterImage_append [rotated])
      moreover have "failFast res (ev1 @ ev2 @ ev3)"
        using c1 ev2(2) ev3(2) by (intro failFast_append)
      moreover have "snd s' = snd s @ (ev1 @ ev2 @ ev3)" using ev1 ev2 ev3 by simp
      ultimately show ?thesis by blast
    qed
  qed
qed

lemma yearsLoop_log:
  assumes "yearsLoop n client imgGen user tracksByYear years s = (res, s')"
    and "\<forall>year \<in> set years. lookupIDs tracksByYear year \<noteq> []"
  shows "\<exists>ev. snd s' = snd s @ ev \<and> failFast res ev \<and> fillsAfterImage ev"
  using assms
proof (induction years arbitrary: s)
  case Nil
  then show ?case by auto
next
  case (Cons year years)
  obtain r1 s1 where p: "processYear n client imgGen user tracksByYear year s = (r1, s1)"
    by (cases "processYear n client imgGen user tracksByYear year s")
  from processYear_log [OF p] Cons.prems(2) obtain ev1 where
    ev1: "snd s1 = snd s @ ev1" "failFast r1 ev1" "fillsAfterImage ev1" by auto
  show ?case
  proof (cases r1)
    case None
    then have "res = None" "s' = s1" using Cons.prems p by simp_all
    then show ?thesis using ev1 None by auto
  next
    case (Some a)
    show ?thesis
    proof (cases a)
      case (Inl err)
      then have "res = Some (Inl err)" "s' = s1" using Cons.prems p Some by simp_all
      then show ?thesis using ev1 Some Inl by auto
    next
      case (Inr u)
      then have rec: "yearsLoop n client imgGen user tracksByYear years s1 = (res, s')"
        using Cons.prems p Some by simp
      from Cons.IH [OF rec] Cons.prems(2) obtain ev2 where
        ev2: "snd s' = snd s1 @ ev2" "failFast res ev2" "fillsAfterImage ev2" by auto
      have "clean ev1" using ev1(2) Some Inr by simp
      then have "failFast res (ev1 @ ev2)" using ev2(2) by (rule failFast_append)
      moreover have "fillsAfterImage (ev1 @ ev2)"
        using ev1(3) ev2(3) by (rule fillsAfterImage_append)
      moreover have "snd s' = snd s @ (ev1 @ ev2)" using ev1 ev2 by simp
      ultimately show ?thesis by blast
    qed
  qed
qed

lemma groupTracksByYear_buckets:
  assumes "year \<in> set (map fst (groupTracksByYear parseYear tracks))"
  shows "lookupIDs (groupTracksByYear parseYear tracks) year \<noteq> []"
proof -
  have "year \<in> fst ` set (groupLoop parseYear tracks [])"
    using assms by (simp add: groupTracksByYear_def)
  then have "\<exists>t \<in> set tracks. parseYear (AddedAt t) = Some year"
    using groupLoop_keys [of parseYear tracks "[]"] by simp
  then have "filter (\<lambda>t. parseYear (AddedAt t) = Some year) tracks \<noteq> []"
    by (simp add: filter_empty_conv)
  then show ?thesis
    using groupLoop_lookup [of parseYear tracks "[]" year]
    by (simp add: groupTracksByYear_def lookupIDs_def)
qed

lemma playlistSorter_Run_log:
  assumes "playlistSorter_Run n parseYear client imgGen s = (res, s')"
  shows "\<exists>ev. snd s' = snd s @ ev \<and> failFast res ev \<and> fillsAfterImage ev"
proof -
  obtain r1 s1 where f: "fetchAllLikedTracks n client s = (r1, s1)"
    by (cases "fetchAllLikedTracks n client s")
  obtain ev1 where ev1: "snd s1 = snd s @ ev1" "failFast r1 ev1"
      "\<forall>x \<in> set ev1. \<exists>off. fst x = CurrentUsersTracks_call 50 off"
    using fetchLikedLoop_log f unfolding fetchAllLikedTracks_def by blast
  have "noImage ev1" using ev1(3) by (rule noImage_of_calls) simp
  note f1 = fillsAfterImage_noImage [OF this]
  show ?thesis
  proof (cases r1)
    case None
    then have "res = None" "s' = s1" using assms f by (simp_all add: playlistSorter_Run_def)
    then show ?thesis using ev1 None f1 by auto
  next
    case (Some a)
    show ?thesis
    proof (cases a)
      case (Inl err)
      then have "res = Some (Inl (Errorf ''failed to fetch liked tracks'' err))" "s' = s1"
        using assms f Some by (simp_all add: playlistSorter_Run_def)
      moreover have "failFast (Some (Inl (Errorf ''failed to fetch liked tracks'' err)) :: (error + unit) option) ev1"
        using ev1(2) Some Inl by (intro failFast_wrap) (auto intro: failFast_retype)
      ultimately show ?thesis using ev1 f1 by blast
    next
      case (Inr allTracks)
      then have c1: "clean ev1" using ev1(2) Some by simp
      show ?thesis
      proof (cases "allTracks = []")
        case True
        then have "res = Some (Inr ())" "s' = s1"
          using assms f Some Inr by (simp_all add: playlistSorter_Run_def)
        then show ?thesis using ev1 c1 f1 by auto
      next
        case False
        let ?g = "groupTracksByYear parseYear allTracks"
        obtain r2 s2 where p: "perform CurrentUser_call plain (CurrentUser client) s1 = (r2, s2)"
          by (cases "perform CurrentUser_call plain (CurrentUser client) s1")
        note lg = perform_log [OF p]
        show ?thesis
        proof (cases r2)
          case (Inl err)
          then have "res = Some (Inl (Errorf ''failed to get current user'' err))" "s' = s2"
            using assms f Some \<open>a = Inr allTracks\<close> False p
            by (simp_all add: playlistSorter_Run_def Let_def)
          moreover have "failFast (Some (Inl (Errorf ''failed to get current user'' err)) :: (error + unit) option)
              (ev1 @ [(CurrentUser_call, Failed err)])"
            by (rule failFast_append [OF c1]) (simp add: failFast_single)
          moreover have "fillsAfterImage (ev1 @ [(CurrentUser_call, Failed err)])"
            using f1 by (rule fillsAfterImage_append) simp
          ultimately show ?thesis using lg Inl ev1
            by (intro exI [of _ "ev1 @ [(CurrentUser_call, Failed err)]"]) simp
        next
          case (Inr user)
          then have y: "yearsLoop n client imgGen user ?g (sort (map fst ?g)) s2 = (res, s')"
            using assms f Some \<open>a = Inr allTracks\<close> False p
            by (simp add: playlistSorter_Run_def Let_def)
          have "\<forall>year \<in> set (sort (map fst ?g)). lookupIDs ?g year \<noteq> []"
            using groupTracksByYear_buckets by simp
          from yearsLoop_log [OF y this] obtain ev3 where
            ev3: "snd s' = snd s2 @ ev3" "failFast res ev3" "fillsAfterImage ev3" by blast
          let ?ev = "ev1 @ (CurrentUser_call, Succeeded) # ev3"
          have "snd s' = snd s @ ?ev" using ev1 ev3 lg Inr by (simp add: plain_def)
          moreover have "failFast res ?ev"
            using failFast_append [OF c1, of res "(CurrentUser_call, Succeeded) # ev3"]
              failFast_append [of "[(CurrentUser_call, Succeeded)]" res ev3] ev3(2) by simp
          moreover have "fillsAfterImage ?ev"
            using fillsAfterImage_append [OF f1, of "(CurrentUser_call, Succeeded) # ev3"]
              fillsAfterImage_append [of "[(CurrentUser_call, Succeeded)]" ev3] ev3(3) by simp
          ultimately show ?thesis by blast
        qed
      qed
    qed
  qed
qed

section \<open>Failing fast, and the image step\<close>

lemma last_failure_cases:
  assumes "pre @ [y] = before @ x # after"
  shows "(after = [] \<and> x = y) \<or> x \<in> set pre"
proof (cases after rule: rev_cases)
  case Nil
  then show ?thesis using assms by simp
next
  case (snoc after' z)
  then have "pre @ [y] = (before @ x # after') @ [z]" using assms by simp
  then have "pre = before @ x # after'" by (simp only: append1_eq_conv)
  then show ?thesis by simp
qed

lemma failFast_stops:
  assumes "failFast res ev" "ev = before @ (k, Failed e) # after" "\<not> isImageCall k"
  shows "after = [] \<and> (\<exists>err. res = Some (Inl err) \<and> wraps err e)"
proof -
  have nc: "\<not> clean ev" using assms(2,3) by (auto simp: clean_def)
  then obtain err where r: "res = Some (Inl err)"
    using assms(1) by (cases res) (auto simp: failFast_def split: sum.splits)
  then obtain pre k' e' where p: "ev = pre @ [(k', Failed e')]" "wraps err e'" "clean pre"
    using assms(1) by (auto simp: failFast_def)
  have "(after = [] \<and> (k, Failed e) = (k', Failed e')) \<or> (k, Failed e) \<in> set pre"
    using last_failure_cases [of pre "(k', Failed e')" before "(k, Failed e)" after] p(1) assms(2)
    by simp
  moreover have "(k, Failed e) \<notin> set pre" using p(3) assms(3) by (auto simp: clean_def)
  ultimately show ?thesis using r p(2) by auto
qed



text \<open>
  Claim C2. In a run of \<open>playlistSorter.Run\<close>, a call outside the image step that returns an
  error (the playlist listing of the locate step, the creation, the listing of the
  playlist's items, a removal batch, an addition batch, and also the reads of the liked
  tracks and of the current user) is the last call the run makes, and the run has
  returned an error that wraps the error of that call.
\<close>

theorem playlistSorter_Run_fail_fast:
  assumes "playlistSorter_Run n parseYear client imgGen (r, tr) =
             (res, (r', tr @ before @ (k, Failed e) # after))"
    and "\<not> isImageCall k"
  shows "after = [] \<and> (\<exists>err. res = Some (Inl err) \<and> wraps err e)"
proof -
  from playlistSorter_Run_log [OF assms(1)]
  have "failFast res (before @ (k, Failed e) # after)" by auto
  then show ?thesis using assms(2) by (intro failFast_stops) simp_all
qed

theorem playlistSorter_Run_fail_fast_witness:
  "playlistSorter_Run 5 utcYear refusingCreate memoryImages (freshRemote, []) =
     (Some (Inl (Errorf ''failed to create playlist for year 2023'' (Err ''quota exceeded''))),
      (freshRemote,
       [(CurrentUsersTracks_call 50 0, LikedPage \<lparr>liked_Total = 3, liked_Tracks = likedExample\<rparr>),
        (CurrentUsersTracks_call 50 3, LikedPage \<lparr>liked_Total = 3, liked_Tracks = []\<rparr>),
        (CurrentUser_call, Succeeded),
        (GetPlaylistsForUser_call ''me'' 50 0, PlaylistsPage \<lparr>Playlists = []\<rparr>),
        (CreatePlaylistForUser_call ''me'' ''Liked Songs (2023)''
           ''All songs I liked that were added in 2023.'' False False,
         Failed (Err ''quota exceeded''))])) \<and>
   wraps (Errorf ''failed to create playlist for year 2023'' (Err ''quota exceeded''))
     (Err ''quota exceeded'')"
proof -
  let ?before = "[(CurrentUsersTracks_call 50 0, LikedPage \<lparr>liked_Total = 3, liked_Tracks = likedExample\<rparr>),
        (CurrentUsersTracks_call 50 3, LikedPage \<lparr>liked_Total = 3, liked_Tracks = []\<rparr>),
        (CurrentUser_call, Succeeded),
        (GetPlaylistsForUser_call ''me'' 50 0, PlaylistsPage \<lparr>Playlists = []\<rparr>)]"
  let ?k = "CreatePlaylistForUser_call ''me'' ''Liked Songs (2023)''
           ''All songs I liked that were added in 2023.'' False False"
  have run: "playlistSorter_Run 5 utcYear refusingCreate memoryImages (freshRemote, []) =
     (Some (Inl (Errorf ''failed to create playlist for year 2023'' (Err ''quota exceeded''))),
      (freshRemote, [] @ ?before @ (?k, Failed (Err ''quota exceeded'')) # []))"
    by code_simp
  have "\<not> isImageCall ?k" by simp
  from playlistSorter_Run_fail_fast [OF run this] run show ?thesis by simp
qed



text \<open>
  Claim C9. When the fetch of the liked tracks returns no track, \<open>playlistSorter.Run\<close>
  returns nil with the state and the log the fetch left: every call of the run is a read
  of a page of liked tracks, \<open>CurrentUser\<close> is not called, and no playlist is created,
  cleared or filled and no image made or uploaded.
\<close>

theorem playlistSorter_Run_nothing_liked:
  assumes "fetchAllLikedTracks n client (r, tr) = (Some (Inr []), (r', tr'))"
  shows "playlistSorter_Run n parseYear client imgGen (r, tr) = (Some (Inr ()), (r', tr')) \<and>
         (\<exists>ev. tr' = tr @ ev \<and> (\<forall>x \<in> set ev. \<exists>offset. fst x = CurrentUsersTracks_call 50 offset))"
proof -
  have "playlistSorter_Run n parseYear client imgGen (r, tr) = (Some (Inr ()), (r', tr'))"
    using assms by (simp add: playlistSorter_Run_def)
  moreover have "\<exists>ev. tr' = tr @ ev \<and> (\<forall>x \<in> set ev. \<exists>offset. fst x = CurrentUsersTracks_call 50 offset)"
    using fetchLikedLoop_log [of n client 0 "[]" "(r, tr)" "Some (Inr [])" "(r', tr')"] assms
    unfolding fetchAllLikedTracks_def by auto
  ultimately show ?thesis by simp
qed

theorem playlistSorter_Run_nothing_liked_witness:
  "playlistSorter_Run 3 utcYear memoryClient memoryImages
     (\<lparr>mem_User = ''me'', mem_Liked = [], mem_Playlists = []\<rparr>, []) =
   (Some (Inr ()),
    (\<lparr>mem_User = ''me'', mem_Liked = [], mem_Playlists = []\<rparr>,
     [(CurrentUsersTracks_call 50 0, LikedPage \<lparr>liked_Total = 0, liked_Tracks = []\<rparr>)]))"
proof -
  have "fetchAllLikedTracks 3 memoryClient (\<lparr>mem_User = ''me'', mem_Liked = [], mem_Playlists = []\<rparr>, []) =
    (Some (Inr []), (\<lparr>mem_User = ''me'', mem_Liked = [], mem_Playlists = []\<rparr>,
     [(CurrentUsersTracks_call 50 0, LikedPage \<lparr>liked_Total = 0, liked_Tracks = []\<rparr>)]))"
    by code_simp
  from playlistSorter_Run_nothing_liked [OF this] show ?thesis by simp
qed

section \<open>The batches of the two batch loops\<close>

lemma Batcher_Cons:
  "0 < k \<Longrightarrow> xs \<noteq> [] \<Longrightarrow> Batcher k xs = take k xs # Batcher k (drop k xs)"
  by (subst Batcher.simps) simp

lemma concat_Batcher: "0 < k \<Longrightarrow> concat (Batcher k xs) = xs"
proof (induction k xs rule: Batcher.induct)
  case (1 k xs)
  then show ?case by (cases "xs = []") (simp_all add: Batcher_Cons)
qed

lemma Batcher_sizes: "0 < k \<Longrightarrow> b \<in> set (Batcher k xs) \<Longrightarrow> b \<noteq> [] \<and> length b \<le> k"
proof (induction k xs rule: Batcher.induct)
  case (1 k xs)
  then show ?case by (cases "xs = []") (auto simp: Batcher_Cons)
qed

lemma Batcher_butlast: "0 < k \<Longrightarrow> b \<in> set (butlast (Batcher k xs)) \<Longrightarrow> length b = k"
proof (induction k xs rule: Batcher.induct)
  case (1 k xs)
  show ?case
  proof (cases "xs = []")
    case True
    then show ?thesis using "1.prems" by simp
  next
    case False
    note c = Batcher_Cons [OF "1.prems"(1) False]
    show ?thesis
    proof (cases "Batcher k (drop k xs) = []")
      case True
      then show ?thesis using "1.prems" c by simp
    next
      case ne: False
      then have "drop k xs \<noteq> []" by auto
      then have lt: "k < length xs" by simp
      have "butlast (Batcher k xs) = take k xs # butlast (Batcher k (drop k xs))"
        using c ne by simp
      then have "b = take k xs \<or> b \<in> set (butlast (Batcher k (drop k xs)))"
        using "1.prems"(2) by simp
      then show ?thesis
      proof
        assume "b = take k xs"
        then show ?thesis using lt by simp
      next
        assume "b \<in> set (butlast (Batcher k (drop k xs)))"
        then show ?thesis using "1.IH" "1.prems"(1) False by simp
      qed
    qed
  qed
qed

lemma length_Batcher: "0 < k \<Longrightarrow> length (Batcher k xs) = (length xs + k - 1) div k"
proof (induction k xs rule: Batcher.induct)
  case (1 k xs)
  show ?case
  proof (cases "xs = []")
    case True
    then show ?thesis using "1.prems" by simp
  next
    case False
    note c = Batcher_Cons [OF "1.prems"(1) False]
    have ih: "length (Batcher k (drop k xs)) = (length xs - k + k - 1) div k"
      using "1.IH" "1.prems" False by simp
    show ?thesis
    proof (cases "k \<le> length xs")
      case True
      have "length xs + k - 1 = (length xs - 1) + k" using False
        by (cases xs) simp_all
      then have "(length xs + k - 1) div k = (length xs - 1) div k + 1"
        using "1.prems" by (simp only: div_add_self2)
      moreover have "length xs - k + k - 1 = length xs - 1" using True by simp
      ultimately show ?thesis using c ih by simp
    next
      case f: False
      then have "length xs - k + k - 1 = k - 1" by simp
      then have a: "length (Batcher k (drop k xs)) = 0" using ih "1.prems" by simp
      have "0 < length xs" using False by simp
      then have "k \<le> length xs + k - 1" "length xs + k - 1 < 2 * k" using f by linarith+
      then have "(length xs + k - 1) div k = 1"
        by (intro div_nat_eqI) simp_all
      then show ?thesis using c a by simp
    qed
  qed
qed


text \<open>
  Claim C6. For every identifier sequence and every batch size of at least 1, each batch
  loop returns, and its log is the log of the Batcher's batches: one successful call per
  batch, in order, when it returns nil, and the calls up to the first failing one when it
  returns an error. The two methods run their loops with size 100. The batches
  concatenate back to the sequence, none is empty or longer than the size, all but the
  last have exactly the size, and there are \<open>ceil(length / size)\<close> of them; an empty
  sequence gives no call and nil.
\<close>

theorem batches_cover_input:
  assumes "0 < batchSize"
  shows "(case addBatchLoop client playlistID trackIDs batchSize 0 (r, []) of
            (res, (r', ev)) \<Rightarrow>
              batchLog (AddTracksToPlaylist_call playlistID) res (Batcher batchSize trackIDs) ev) \<and>
         (case removeBatchLoop client playlistID trackIDs batchSize 0 (r, []) of
            (res, (r', ev)) \<Rightarrow>
              batchLog (RemoveTracksFromPlaylist_call playlistID) res (Batcher batchSize trackIDs) ev) \<and>
         (case addTracksInBatches client playlistID trackIDs (r, []) of
            (res, (r', ev)) \<Rightarrow>
              batchLog (AddTracksToPlaylist_call playlistID) res (Batcher 100 trackIDs) ev) \<and>
         (case removeTracksInBatches client playlistID trackIDs (r, []) of
            (res, (r', ev)) \<Rightarrow>
              batchLog (RemoveTracksFromPlaylist_call playlistID) res (Batcher 100 trackIDs) ev) \<and>
         concat (Batcher batchSize trackIDs) = trackIDs \<and>
         (\<forall>b \<in> set (Batcher batchSize trackIDs). b \<noteq> [] \<and> length b \<le> batchSize) \<and>
         (\<forall>b \<in> set (butlast (Batcher batchSize trackIDs)). length b = batchSize) \<and>
         length (Batcher batchSize trackIDs) = (length trackIDs + batchSize - 1) div batchSize \<and>
         addTracksInBatches client playlistID [] (r, tr) = (Some (Inr ()), (r, tr)) \<and>
         removeTracksInBatches client playlistID [] (r, tr) = (Some (Inr ()), (r, tr))"
proof -
  have a: "batchLog (AddTracksToPlaylist_call playlistID) res (Batcher k trackIDs) ev"
    if "addBatchLoop client playlistID trackIDs k 0 (r, []) = (res, (r', ev))" "0 < k" for k res r' ev
    using addBatchLoop_log [OF that(2) that(1)] by simp
  have b: "batchLog (RemoveTracksFromPlaylist_call playlistID) res (Batcher k trackIDs) ev"
    if "removeBatchLoop client playlistID trackIDs k 0 (r, []) = (res, (r', ev))" "0 < k" for k res r' ev
    using removeBatchLoop_log [OF that(2) that(1)] by simp
  have c: "batchLog (RemoveTracksFromPlaylist_call playlistID) res (Batcher 100 trackIDs) ev"
    if "removeTracksInBatches client playlistID trackIDs (r, []) = (res, (r', ev))" for res r' ev
  proof (cases "trackIDs = []")
    case True
    then show ?thesis using that by (auto simp: removeTracksInBatches_def batchLog_def)
  next
    case False
    then show ?thesis using that b [of 100] by (simp add: removeTracksInBatches_def)
  qed
  have 1: "case addBatchLoop client playlistID trackIDs batchSize 0 (r, []) of
            (res, (r', ev)) \<Rightarrow>
              batchLog (AddTracksToPlaylist_call playlistID) res (Batcher batchSize trackIDs) ev"
    using a [OF _ assms] by (simp split: prod.splits)
  have 2: "case removeBatchLoop client playlistID trackIDs batchSize 0 (r, []) of
            (res, (r', ev)) \<Rightarrow>
              batchLog (RemoveTracksFromPlaylist_call playlistID) res (Batcher batchSize trackIDs) ev"
    using b [OF _ assms] by (simp split: prod.splits)
  have 3: "case addTracksInBatches client playlistID trackIDs (r, []) of
            (res, (r', ev)) \<Rightarrow>
              batchLog (AddTracksToPlaylist_call playlistID) res (Batcher 100 trackIDs) ev"
    using a [of 100] by (simp add: addTracksInBatches_def split: prod.splits)
  have 4: "case removeTracksInBatches client playlistID trackIDs (r, []) of
            (res, (r', ev)) \<Rightarrow>
              batchLog (RemoveTracksFromPlaylist_call playlistID) res (Batcher 100 trackIDs) ev"
    using c by (simp split: prod.splits)
  have 5: "concat (Batcher batchSize trackIDs) = trackIDs"
    using assms by (rule concat_Batcher)
  have 6: "\<forall>b \<in> set (Batcher batchSize trackIDs). b \<noteq> [] \<and> length b \<le> batchSize"
    using Batcher_sizes [OF assms] by blast
  have 7: "\<forall>b \<in> set (butlast (Batcher batchSize trackIDs)). length b = batchSize"
    using Batcher_butlast [OF assms] by blast
  have 8: "length (Batcher batchSize trackIDs) = (length trackIDs + batchSize - 1) div batchSize"
    using assms by (rule length_Batcher)
  have 9: "addTracksInBatches client playlistID [] (r, tr) = (Some (Inr ()), (r, tr))"
    by (simp add: addTracksInBatches_def addBatchLoop_stop)
  have 10: "removeTracksInBatches client playlistID [] (r, tr) = (Some (Inr ()), (r, tr))"
    by (simp add: removeTracksInBatches_def)
  show ?thesis using 1 2 3 4 5 6 7 8 9 10 by (intro conjI)
qed

theorem batches_cover_input_witness:
  "addBatchLoop memoryClient ''q'' [''a'', ''b'', ''c'', ''d'', ''e''] 2 0 (usedRemote, []) =
     (Some (Inr ()),
      (usedRemote\<lparr>mem_Playlists :=
         [\<lparr>stored_ID = ''q'', stored_Name = ''Liked Songs (2023)'', stored_Owner = ''me'',
           stored_Items = [''x'', ''y'', ''a'', ''b'', ''c'', ''d'', ''e'']\<rparr>]\<rparr>,
       [(AddTracksToPlaylist_call ''q'' [''a'', ''b''], Succeeded),
        (AddTracksToPlaylist_call ''q'' [''c'', ''d''], Succeeded),
        (AddTracksToPlaylist_call ''q'' [''e''], Succeeded)])) \<and>
   batchLog (AddTracksToPlaylist_call ''q'') (Some (Inr ()))
     (Batcher 2 [''a'', ''b'', ''c'', ''d'', ''e''])
     [(AddTracksToPlaylist_call ''q'' [''a'', ''b''], Succeeded),
      (AddTracksToPlaylist_call ''q'' [''c'', ''d''], Succeeded),
      (AddTracksToPlaylist_call ''q'' [''e''], Succeeded)] \<and>
   Batcher 2 [''a'', ''b'', ''c'', ''d'', ''e''] = [[''a'', ''b''], [''c'', ''d''], [''e'']] \<and>
   length (Batcher 2 [''a'', ''b'', ''c'', ''d'', ''e'']) = (5 + 2 - 1) div 2"
proof -
  have run: "addBatchLoop memoryClient ''q'' [''a'', ''b'', ''c'', ''d'', ''e''] 2 0 (usedRemote, []) =
     (Some (Inr ()),
      (usedRemote\<lparr>mem_Playlists :=
         [\<lparr>stored_ID = ''q'', stored_Name = ''Liked Songs (2023)'', stored_Owner = ''me'',
           stored_Items = [''x'', ''y'', ''a'', ''b'', ''c'', ''d'', ''e'']\<rparr>]\<rparr>,
       [(AddTracksToPlaylist_call ''q'' [''a'', ''b''], Succeeded),
        (AddTracksToPlaylist_call ''q'' [''c'', ''d''], Succeeded),
        (AddTracksToPlaylist_call ''q'' [''e''], Succeeded)]))"
    by code_simp
  have bat: "Batcher 2 [''a'', ''b'', ''c'', ''d'', ''e''] = [[''a'', ''b''], [''c'', ''d''], [''e'']]"
    by code_simp
  have pos: "0 < (2::nat)" by simp
  from batches_cover_input [OF pos, where client = memoryClient and playlistID = "''q''"
      and trackIDs = "[''a'', ''b'', ''c'', ''d'', ''e'']" and r = usedRemote and tr = "[]"]
  show ?thesis using run bat by simp
qed

section \<open>Where the pagers stop\<close>






section \<open>The log of the artist filter\<close>



















section \<open>The playlist locator\<close>

lemma find_take_Some: "find P (take k xs) = Some y \<Longrightarrow> find P xs = Some y"
proof (induction xs arbitrary: k)
  case Nil
  then show ?case by simp
next
  case (Cons x xs)
  then show ?case by (cases k) (auto split: if_splits)
qed

lemma find_take_None: "find P (take k xs) = None \<Longrightarrow> find P xs = find P (drop k xs)"
proof (induction xs arbitrary: k)
  case Nil
  then show ?case by simp
next
  case (Cons x xs)
  then show ?case by (cases k) (auto split: if_splits)
qed

lemma findPlaylistLoop_serves:
  assumes "servesPlaylists client userID r pls"
  shows "length pls - offset < n \<Longrightarrow>
     \<exists>ev. findPlaylistLoop n client userID name (int offset) (r, tr) =
       (Some (Inr (find (isMatch userID name) (drop offset pls))), (r, tr @ ev))"
proof (induction n arbitrary: offset tr)
  case 0
  then show ?case by simp
next
  case (Suc n)
  obtain k where k: "offset < length pls \<longrightarrow> 0 < k"
      "GetPlaylistsForUser client userID 50 (int offset) r =
         (Inr \<lparr>Playlists = take k (drop offset pls)\<rparr>, r)"
    using assms unfolding servesPlaylists_def by blast
  let ?page = "take k (drop offset pls)"
  let ?e = "(GetPlaylistsForUser_call userID 50 (int offset), PlaylistsPage \<lparr>Playlists = ?page\<rparr>)"
  have p: "perform (GetPlaylistsForUser_call userID 50 (int offset)) PlaylistsPage
      (GetPlaylistsForUser client userID 50 (int offset)) (r, tr) =
      (Inr \<lparr>Playlists = ?page\<rparr>, (r, tr @ [?e]))"
    using k(2) by (simp add: perform_def)
  show ?case
  proof (cases "find (isMatch userID name) ?page")
    case (Some found)
    then have "find (isMatch userID name) (drop offset pls) = Some found"
      by (rule find_take_Some)
    then show ?thesis using p Some by simp
  next
    case None
    note eq = find_take_None [OF None]
    show ?thesis
    proof (cases "?page = []")
      case True
      then have "drop offset pls = []" using k(1) by (cases "offset < length pls") auto
      then show ?thesis using p None True by simp
    next
      case False
      then have lt: "offset < length pls" by auto
      let ?off = "offset + length ?page"
      have "length pls - ?off < n" using Suc.prems lt False by (cases ?page) auto
      from Suc.IH [OF this, of "tr @ [?e]"] obtain ev where
        ev: "findPlaylistLoop n client userID name (int ?off) (r, tr @ [?e]) =
          (Some (Inr (find (isMatch userID name) (drop ?off pls))), (r, (tr @ [?e]) @ ev))"
        by blast
      have "drop ?off pls = drop k (drop offset pls)"
      proof (cases "k \<le> length (drop offset pls)")
        case True
        then show ?thesis by (simp add: min_def add.commute)
      next
        case False
        then show ?thesis by simp
      qed
      then have "find (isMatch userID name) (drop ?off pls) = find (isMatch userID name) (drop offset pls)"
        using eq by simp
      then have "findPlaylistLoop (Suc n) client userID name (int offset) (r, tr) =
          (Some (Inr (find (isMatch userID name) (drop offset pls))), (r, tr @ (?e # ev)))"
        using p None False ev lt k(1) by (auto simp: add.commute min_def)
      then show ?thesis by blast
    qed
  qed
qed


lemma memoryClient_serves:
  "servesPlaylists memoryClient userID r (map asSimplePlaylist (mem_Playlists r))"
  unfolding servesPlaylists_def
proof
  fix offset
  have "(offset < length (map asSimplePlaylist (mem_Playlists r)) \<longrightarrow> 0 < (50::nat)) \<and>
     GetPlaylistsForUser memoryClient userID 50 (int offset) r =
       (Inr \<lparr>Playlists = take 50 (drop offset (map asSimplePlaylist (mem_Playlists r)))\<rparr>, r)"
    by (simp add: memoryClient_def slice_def)
  then show "\<exists>k. (offset < length (map asSimplePlaylist (mem_Playlists r)) \<longrightarrow> 0 < k) \<and>
     GetPlaylistsForUser memoryClient userID 50 (int offset) r =
       (Inr \<lparr>Playlists = take k (drop offset (map asSimplePlaylist (mem_Playlists r)))\<rparr>, r)"
    by blast
qed

text \<open>
  Claim C5. For every target name, owner identifier and paged playlist collection,
  \<open>findExistingPlaylist\<close>, given more iterations than the collection has playlists, returns
  with nil error the first playlist of the collection, in page order, whose name equals
  the target and whose owner identifier equals the given one, and the nil playlist when
  the collection has no such playlist; the equalities are those of the strings.
\<close>

theorem findExistingPlaylist_first_match:
  assumes "servesPlaylists client userID r pls" and "length pls < n"
  shows "(\<exists>ev. findExistingPlaylist n client userID name (r, tr) =
            (Some (Inr (find (isMatch userID name) pls)), (r, tr @ ev))) \<and>
         (\<forall>pl. isMatch userID name pl =
            (playlist_Name pl = name \<and> user_ID (playlist_Owner pl) = userID))"
proof -
  have "length pls - 0 < n" using assms(2) by simp
  from findPlaylistLoop_serves [OF assms(1) this, of name tr]
  show ?thesis by (simp add: findExistingPlaylist_def isMatch_def)
qed

theorem findExistingPlaylist_first_match_witness:
  "findExistingPlaylist 4 memoryClient ''me'' ''Liked Songs (2023)'' (crowdedRemote, []) =
     (Some (Inr (Some \<lparr>playlist_ID = ''q'', playlist_Name = ''Liked Songs (2023)'',
                        playlist_Owner = \<lparr>user_ID = ''me''\<rparr>\<rparr>)),
      (crowdedRemote,
       [(GetPlaylistsForUser_call ''me'' 50 0,
         PlaylistsPage \<lparr>Playlists = map asSimplePlaylist (mem_Playlists crowdedRemote)\<rparr>)])) \<and>
   find (isMatch ''me'' ''Liked Songs (2023)'') (map asSimplePlaylist (mem_Playlists crowdedRemote)) =
     Some \<lparr>playlist_ID = ''q'', playlist_Name = ''Liked Songs (2023)'',
           playlist_Owner = \<lparr>user_ID = ''me''\<rparr>\<rparr> \<and>
   fst (findExistingPlaylist 4 memoryClient ''me'' ''Liked Songs (2024)'' (crowdedRemote, [])) =
     Some (Inr None)"
proof -
  have len: "length (map asSimplePlaylist (mem_Playlists crowdedRemote)) < 4"
    by (simp add: crowdedRemote_def)
  note t = findExistingPlaylist_first_match [OF memoryClient_serves len, where tr = "[]"]
  have run: "findExistingPlaylist 4 memoryClient ''me'' ''Liked Songs (2023)'' (crowdedRemote, []) =
     (Some (Inr (Some \<lparr>playlist_ID = ''q'', playlist_Name = ''Liked Songs (2023)'',
                        playlist_Owner = \<lparr>user_ID = ''me''\<rparr>\<rparr>)),
      (crowdedRemote,
       [(GetPlaylistsForUser_call ''me'' 50 0,
         PlaylistsPage \<lparr>Playlists = map asSimplePlaylist (mem_Playlists crowdedRemote)\<rparr>)]))"
    by code_simp
  have f: "find (isMatch ''me'' ''Liked Songs (2023)'') (map asSimplePlaylist (mem_Playlists crowdedRemote)) =
     Some \<lparr>playlist_ID = ''q'', playlist_Name = ''Liked Songs (2023)'',
           playlist_Owner = \<lparr>user_ID = ''me''\<rparr>\<rparr>"
    by code_simp
  have g: "find (isMatch ''me'' ''Liked Songs (2024)'') (map asSimplePlaylist (mem_Playlists crowdedRemote)) =
     None"
    by code_simp
  have "fst (findExistingPlaylist 4 memoryClient ''me'' ''Liked Songs (2024)'' (crowdedRemote, [])) =
     Some (Inr None)"
    using t [of "''me''" "''Liked Songs (2024)''"] g by auto
  then show ?thesis using run f by blast
qed

section \<open>Runs against the in-memory service\<close>

lemma changeItems_IDs [simp]:
  "map stored_ID (mem_Playlists (changeItems pid f r)) = map stored_ID (mem_Playlists r)"
  unfolding changeItems_def by (simp add: comp_def)

lemma changeItems_simps [simp]:
  "mem_User (changeItems pid f r) = mem_User r"
  "mem_Liked (changeItems pid f r) = mem_Liked r"
  "length (mem_Playlists (changeItems pid f r)) = length (mem_Playlists r)"
  by (simp_all add: changeItems_def)

lemma changeItems_has [simp]: "hasPlaylist (changeItems pid f r) q = hasPlaylist r q"
  unfolding hasPlaylist_def by (simp only: changeItems_IDs)


lemma changeItems_same:
  "(\<And>p. p \<in> set (mem_Playlists r) \<Longrightarrow> stored_ID p = pid \<Longrightarrow> f (stored_Items p) = stored_Items p) \<Longrightarrow>
   changeItems pid f r = r"
  by (simp add: changeItems_def map_idI)






lemma changeItems_append_Nil [simp]: "changeItems pid (\<lambda>items. items) r = r"
  by (intro changeItems_same) simp




















lemma settle_alt:
  "settle name B r =
     (case target (mem_User r) name (mem_Playlists r) of
        Some p \<Rightarrow> changeItems (stored_ID p) (refill B) r
      | None \<Rightarrow>
          r\<lparr>mem_Playlists := mem_Playlists r @
              [\<lparr>stored_ID = freshID (mem_Playlists r), stored_Name = name,
                stored_Owner = mem_User r, stored_Items = addable 100 B\<rparr>]\<rparr>)"
proof -
  have "refill B = (\<lambda>items. filter (\<lambda>i. i = []) items @ addable 100 B)"
    by (simp add: fun_eq_iff refill_def)
  then show ?thesis by (simp add: settle_def split: option.splits)
qed

lemma settle_keeps [simp]:
  "mem_User (settle name B r) = mem_User r" "mem_Liked (settle name B r) = mem_Liked r"
  by (simp_all add: settle_alt split: option.splits)

















lemma settleYears_keeps [simp]:
  "mem_User (snd (settleYears g ys r)) = mem_User r"
  "mem_Liked (snd (settleYears g ys r)) = mem_Liked r"
  by (induction ys arbitrary: r) simp_all
















end
